theory Spec2Isabelle
  imports Complex_Main "HOL-Library.Word" "HOL-Library.Multiset"
    "HOL-Library.Char_ord" "HOL-Library.List_Lexorder" "HOL-Library.Product_Lexorder"
begin

unbundle bit_operations_syntax

section \<open>Python string operations used by the sources\<close>

text \<open>
  A Python \<open>str\<close> is modelled as a \<open>string\<close>, one \<open>char\<close> per code point (code points
  up to 255, which covers the ASCII attachment URLs, decimal user ids and timestamp
  renderings the bot handles).
\<close>

text \<open>\<open>s.startswith(p)\<close>\<close>

fun startswith :: "string \<Rightarrow> string \<Rightarrow> bool" where
  "startswith s [] = True"
| "startswith [] (p # ps) = False"
| "startswith (c # cs) (p # ps) = (c = p \<and> startswith cs ps)"

text \<open>\<open>s.endswith(p)\<close>\<close>

definition endswith :: "string \<Rightarrow> string \<Rightarrow> bool" where
  "endswith s p = startswith (rev s) (rev p)"

text \<open>\<open>sub in s\<close>\<close>

fun py_contains :: "string \<Rightarrow> string \<Rightarrow> bool" where
  "py_contains [] sub = (sub = [])"
| "py_contains (c # cs) sub = (startswith (c # cs) sub \<or> py_contains cs sub)"

text \<open>\<open>s.rfind(sub)\<close>: the highest index at which \<open>sub\<close> starts, or \<open>-1\<close>.\<close>

fun rfind :: "string \<Rightarrow> string \<Rightarrow> int" where
  "rfind [] sub = (if sub = [] then 0 else - 1)"
| "rfind (c # cs) sub =
     (let r = rfind cs sub
      in if 0 \<le> r then r + 1 else if startswith (c # cs) sub then 0 else - 1)"

text \<open>\<open>s[:k]\<close>, where a negative \<open>k\<close> counts from the end.\<close>

definition slice_to :: "string \<Rightarrow> int \<Rightarrow> string" where
  "slice_to s k = (if k < 0 then take (nat (int (length s) + k)) s else take (nat k) s)"

text \<open>\<open>str.encode()\<close>: UTF-8, one byte below 128 and two bytes from 128 to 255.\<close>

definition encode_char :: "char \<Rightarrow> 8 word list" where
  "encode_char c =
     (let n = of_char c :: nat
      in if n < 128 then [of_nat n]
         else [of_nat (192 + n div 64), of_nat (128 + n mod 64)])"

definition encode :: "string \<Rightarrow> 8 word list" where
  "encode s = concat (map encode_char s)"

section \<open>\<open>hashlib.md5\<close>\<close>

text \<open>
  The digest the source calls is the MD5 function of RFC 1321: the message is padded
  to a multiple of 64 bytes, cut into blocks of sixteen little-endian 32-bit words, and
  each block drives 64 rounds over four 32-bit registers.
\<close>

definition md5_K :: "32 word list" where
  "md5_K =
   [0xd76aa478, 0xe8c7b756, 0x242070db, 0xc1bdceee,
    0xf57c0faf, 0x4787c62a, 0xa8304613, 0xfd469501,
    0x698098d8, 0x8b44f7af, 0xffff5bb1, 0x895cd7be,
    0x6b901122, 0xfd987193, 0xa679438e, 0x49b40821,
    0xf61e2562, 0xc040b340, 0x265e5a51, 0xe9b6c7aa,
    0xd62f105d, 0x02441453, 0xd8a1e681, 0xe7d3fbc8,
    0x21e1cde6, 0xc33707d6, 0xf4d50d87, 0x455a14ed,
    0xa9e3e905, 0xfcefa3f8, 0x676f02d9, 0x8d2a4c8a,
    0xfffa3942, 0x8771f681, 0x6d9d6122, 0xfde5380c,
    0xa4beea44, 0x4bdecfa9, 0xf6bb4b60, 0xbebfbc70,
    0x289b7ec6, 0xeaa127fa, 0xd4ef3085, 0x04881d05,
    0xd9d4d039, 0xe6db99e5, 0x1fa27cf8, 0xc4ac5665,
    0xf4292244, 0x432aff97, 0xab9423a7, 0xfc93a039,
    0x655b59c3, 0x8f0ccc92, 0xffeff47d, 0x85845dd1,
    0x6fa87e4f, 0xfe2ce6e0, 0xa3014314, 0x4e0811a1,
    0xf7537e82, 0xbd3af235, 0x2ad7d2bb, 0xeb86d391]"

definition md5_S :: "nat list" where
  "md5_S =
   [7, 12, 17, 22, 7, 12, 17, 22, 7, 12, 17, 22, 7, 12, 17, 22,
    5, 9, 14, 20, 5, 9, 14, 20, 5, 9, 14, 20, 5, 9, 14, 20,
    4, 11, 16, 23, 4, 11, 16, 23, 4, 11, 16, 23, 4, 11, 16, 23,
    6, 10, 15, 21, 6, 10, 15, 21, 6, 10, 15, 21, 6, 10, 15, 21]"

definition rotl32 :: "32 word \<Rightarrow> nat \<Rightarrow> 32 word" where
  "rotl32 x n = (push_bit n x) OR (drop_bit (32 - n) x)"

text \<open>
  The little-endian bytes of the 64-bit message length (in bits, modulo \<open>2 ^ 64\<close>) and
  of a 32-bit register.
\<close>

definition length_bytes :: "64 word \<Rightarrow> 8 word list" where
  "length_bytes w = map (\<lambda>i. ucast (drop_bit (8 * i) w)) [0..<8]"

definition word_bytes :: "32 word \<Rightarrow> 8 word list" where
  "word_bytes w = [ucast w, ucast (drop_bit 8 w), ucast (drop_bit 16 w), ucast (drop_bit 24 w)]"

definition md5_pad :: "8 word list \<Rightarrow> 8 word list" where
  "md5_pad bs =
     bs @ [0x80] @ replicate ((55 + 64 - length bs mod 64) mod 64) 0
        @ length_bytes (of_nat (8 * length bs))"

fun le_word :: "8 word list \<Rightarrow> 32 word" where
  "le_word [] = 0"
| "le_word (b # bs) = ucast b OR push_bit 8 (le_word bs)"

text \<open>The sixteen message words of a 64-byte block.\<close>

definition block_words :: "8 word list \<Rightarrow> 32 word list" where
  "block_words blk = map (\<lambda>j. le_word (take 4 (drop (4 * j) blk))) [0..<16]"

type_synonym md5_regs = "32 word \<times> 32 word \<times> 32 word \<times> 32 word"

definition md5_round :: "32 word list \<Rightarrow> md5_regs \<Rightarrow> nat \<Rightarrow> md5_regs" where
  "md5_round M r i =
     (case r of (a, b, c, d) \<Rightarrow>
        let (f, g) =
              (if i < 16 then ((b AND c) OR (NOT b AND d), i)
               else if i < 32 then ((d AND b) OR (NOT d AND c), (5 * i + 1) mod 16)
               else if i < 48 then (b XOR c XOR d, (3 * i + 5) mod 16)
               else (c XOR (b OR NOT d), (7 * i) mod 16));
            f' = f + a + md5_K ! i + M ! g
        in (d, b + rotl32 f' (md5_S ! i), b, c))"

definition md5_block :: "md5_regs \<Rightarrow> 8 word list \<Rightarrow> md5_regs" where
  "md5_block r blk =
     (case r of (a0, b0, c0, d0) \<Rightarrow>
        case foldl (md5_round (block_words blk)) r [0..<64] of
          (a, b, c, d) \<Rightarrow> (a0 + a, b0 + b, c0 + c, d0 + d))"

fun md5_blocks :: "nat \<Rightarrow> md5_regs \<Rightarrow> 8 word list \<Rightarrow> md5_regs" where
  "md5_blocks 0 r bs = r"
| "md5_blocks (Suc n) r bs = md5_blocks n (md5_block r (take 64 bs)) (drop 64 bs)"

definition md5_init :: md5_regs where
  "md5_init = (0x67452301, 0xefcdab89, 0x98badcfe, 0x10325476)"

text \<open>\<open>hashlib.md5(bs).digest()\<close>: sixteen bytes.\<close>

definition md5 :: "8 word list \<Rightarrow> 8 word list" where
  "md5 bs =
     (let p = md5_pad bs
      in case md5_blocks (length p div 64) md5_init p of
           (a, b, c, d) \<Rightarrow> word_bytes a @ word_bytes b @ word_bytes c @ word_bytes d)"

definition hex_digit :: "nat \<Rightarrow> char" where
  "hex_digit n = ''0123456789abcdef'' ! (n mod 16)"

definition hex_byte :: "8 word \<Rightarrow> string" where
  "hex_byte b = [hex_digit (unat b div 16), hex_digit (unat b mod 16)]"

text \<open>\<open>.hexdigest()\<close>: two lowercase hexadecimal digits per byte.\<close>

definition hexdigest :: "8 word list \<Rightarrow> string" where
  "hexdigest bs = concat (map hex_byte bs)"

section \<open>\<open>discord_bot_handler.py\<close>\<close>

text \<open>
  \<open>DiscordBotHandler.trim_attachment_url\<close>: everything from the last \<open>?ex=\<close> on is cut
  off, and a URL without \<open>?ex=\<close> is returned as it is.
\<close>

definition trim_attachment_url :: "string \<Rightarrow> string" where
  "trim_attachment_url URL =
     (if py_contains URL ''?ex='' then slice_to URL (rfind URL ''?ex='') else URL)"

text \<open>
  \<open>DiscordBotHandler.generate_message_id\<close>. The three arguments are given as the text
  the f-string renders them to.
\<close>

definition generate_message_id :: "string \<Rightarrow> string \<Rightarrow> string \<Rightarrow> string" where
  "generate_message_id author_name created_at attachment =
     take 8 (hexdigest (md5 (encode (author_name @ created_at @ attachment))))"

text \<open>
  The id \<open>process_message\<close> gives an attachment: \<open>generate_message_id\<close> on the author id,
  the creation time and the trimmed URL.
\<close>

definition attachment_uuid :: "string \<Rightarrow> string \<Rightarrow> string \<Rightarrow> string" where
  "attachment_uuid author_id created_at url =
     generate_message_id author_id created_at (trim_attachment_url url)"

section \<open>\<open>thumbnail_gen.py\<close>\<close>

subsection \<open>Data\<close>

datatype level = DEBUG | INFO | WARNING | ERROR | CRITICAL

text \<open>
  An entry of the metadata queue is the dict \<open>{"Id": ..., "Length": ...}\<close>; a field is
  \<open>None\<close> when \<open>entry.get\<close> finds no such key. Durations and clock readings are
  modelled as real numbers: the code only compares them and tests them for zero.
\<close>

record metadata =
  md_Id :: "string option"
  md_Length :: "real option"

text \<open>An attachment descriptor of the thumbnail queue.\<close>

record video =
  Attachment_URL :: string
  video_Id :: string

datatype status = generated | skipped | error

text \<open>The messages the generator hands to \<open>log_item\<close>.\<close>

datatype tg_msg =
    Skipping string
  | Downloading_video string
  | Generating_thumbnail string
  | Thumbnail_Exists string
  | Temporary_file_removed string
  | Error_processing_video string
  | Video_file_does_not_exist string
  | Thumbnail_successfully_generated string
  | Error_generating_thumbnail string
  | Metadata_generated string
  | Error_getting_video_length string
  | Video_length string real
  | Added_metadata_to_queue string real
  | Unable_to_determine_video_length string
  | Starting_Upload string
  | Finished_Upload string
  | Error_uploading string
  | Uploaded_to_bucket string string
  | Invalid_metadata_entry metadata
  | Added_to_batch string real
  | Conflicting_metadata string real real
  | Metadata_already_exists
  | Uploading_Batch_Runtimes nat

text \<open>
  The calls that leave the process: the HTTP request of \<open>download_video\<close>, the two
  subprocesses, the removal of the temporary file, the upload of a thumbnail to the
  bucket and the batched write of durations. \<open>Thumbnail_written\<close> marks a frame that
  ffmpeg has written.
\<close>

datatype effect =
    Http_get string string
  | Ffprobe string
  | Ffmpeg string string
  | Thumbnail_written string
  | Remove_file string
  | Upload_from_filename string string
  | Push_batch_runtimes "metadata list"

text \<open>
  What the collaborators answer. A request is answered with status 200, with another
  status, or raises; ffprobe prints a duration or none; ffmpeg and the bucket succeed
  or fail.
\<close>

datatype download_outcome = Response_200 | Response_other | Request_raises

record world =
  http_get :: "string \<Rightarrow> download_outcome"
  ffprobe :: "string \<Rightarrow> real option"
  ffmpeg_ok :: "string \<Rightarrow> bool"
  bucket_ok :: "string \<Rightarrow> bool"

text \<open>
  The \<open>ThumbnailGenerator\<close> object with what it reaches: its two folders, the
  uploader's folder and set of uploaded file names, the metadata queue, the two
  idempotency caches, the files that exist, the log, the trace of outside calls, and
  the three local variables of \<open>batch_save_metadata\<close>, which runs once for the life of
  the object.
\<close>

record thumbnail_generator =
  output_folder :: string
  temp_folder :: string
  thumbnail_dir :: string
  metadata_queue :: "metadata list"
  uploaded_uuids :: "string list"
  video_lengths :: "string \<rightharpoonup> real"
  last_uploaded_files :: "string set"
  files :: "string set"
  tg_log :: "(level \<times> tg_msg) list"
  effects :: "effect list"
  changes_made :: bool
  last_modification :: real
  new_metadata :: "metadata list"

definition log_item :: "level \<Rightarrow> tg_msg \<Rightarrow> thumbnail_generator \<Rightarrow> thumbnail_generator" where
  "log_item lv m s = s\<lparr>tg_log := tg_log s @ [(lv, m)]\<rparr>"

definition do_effect :: "effect \<Rightarrow> thumbnail_generator \<Rightarrow> thumbnail_generator" where
  "do_effect e s = s\<lparr>effects := effects s @ [e]\<rparr>"

text \<open>\<open>os.path.join\<close> of two components (POSIX).\<close>

definition os_path_join :: "string \<Rightarrow> string \<Rightarrow> string" where
  "os_path_join a b =
     (if startswith b ''/'' then b
      else if a = [] \<or> endswith a ''/'' then a @ b
      else a @ ''/'' @ b)"

subsection \<open>Downloading, probing, extracting, uploading\<close>

text \<open>
  \<open>download_video\<close>: the body is written to the file only on status 200; any other
  status writes nothing and raises nothing. An exception of the request leaves the
  function (\<open>True\<close> in the first component).
\<close>

definition download_video ::
  "world \<Rightarrow> string \<Rightarrow> string \<Rightarrow> thumbnail_generator \<Rightarrow> bool \<times> thumbnail_generator" where
  "download_video w url filename s =
     (let s1 = do_effect (Http_get url filename) s
      in case http_get w url of
           Request_raises \<Rightarrow> (True, s1)
         | Response_200 \<Rightarrow> (False, s1\<lparr>files := insert filename (files s1)\<rparr>)
         | Response_other \<Rightarrow> (False, s1))"

text \<open>
  \<open>get_video_length\<close>: the duration ffprobe prints, or \<open>None\<close> after logging an error;
  every exception is caught. ffprobe prints no duration for a file that is not there.
\<close>

definition get_video_length ::
  "world \<Rightarrow> string \<Rightarrow> thumbnail_generator \<Rightarrow> real option \<times> thumbnail_generator" where
  "get_video_length w file_path s =
     (let s1 = do_effect (Ffprobe file_path) s
      in case (if file_path \<in> files s then ffprobe w file_path else None) of
           Some l \<Rightarrow> (Some l, log_item DEBUG (Metadata_generated file_path) s1)
         | None \<Rightarrow> (None, log_item ERROR (Error_getting_video_length file_path) s1))"

definition process_metadata ::
  "world \<Rightarrow> string \<Rightarrow> string \<Rightarrow> thumbnail_generator \<Rightarrow> thumbnail_generator" where
  "process_metadata w video_id temp_video_path s =
     (case get_video_length w temp_video_path s of
        (Some video_length, s1) \<Rightarrow>
          log_item DEBUG (Added_metadata_to_queue video_id video_length)
            ((log_item DEBUG (Video_length video_id video_length) s1)
               \<lparr>metadata_queue := metadata_queue s1
                    @ [\<lparr>md_Id = Some video_id, md_Length = Some video_length\<rparr>]\<rparr>)
      | (None, s1) \<Rightarrow> log_item ERROR (Unable_to_determine_video_length video_id) s1)"

text \<open>
  \<open>generate_thumbnail\<close>: nothing is run when the video file is missing; a failure of
  ffmpeg is logged and caught.
\<close>

definition generate_thumbnail ::
  "world \<Rightarrow> string \<Rightarrow> string \<Rightarrow> thumbnail_generator \<Rightarrow> thumbnail_generator" where
  "generate_thumbnail w video_filename thumbnail_path s =
     (if video_filename \<notin> files s
      then log_item ERROR (Video_file_does_not_exist video_filename) s
      else
        let s1 = do_effect (Ffmpeg video_filename thumbnail_path) s
        in if ffmpeg_ok w video_filename
           then log_item INFO (Thumbnail_successfully_generated video_filename)
                  (do_effect (Thumbnail_written thumbnail_path)
                     (s1\<lparr>files := insert thumbnail_path (files s1)\<rparr>))
           else log_item ERROR (Error_generating_thumbnail video_filename) s1)"

text \<open>
  \<open>ThumbnailUploader.upload_thumbnail\<close> with \<open>upload_to_bucket\<close>: a file name not
  uploaded before in this process is sent to the bucket and remembered; the upload
  raises (\<open>True\<close>) when the local file is missing or the bucket refuses.
\<close>

definition uploader_upload_thumbnail ::
  "world \<Rightarrow> string \<Rightarrow> thumbnail_generator \<Rightarrow> bool \<times> thumbnail_generator" where
  "uploader_upload_thumbnail w filename s =
     (if endswith filename ''.jpg'' \<or> endswith filename ''.png'' then
        let file_path = os_path_join (thumbnail_dir s) filename
        in if filename \<notin> last_uploaded_files s then
             let destination_blob_name = ''thumb/'' @ filename;
                 s1 = do_effect (Upload_from_filename file_path destination_blob_name) s
             in if file_path \<in> files s \<and> bucket_ok w destination_blob_name
                then (False,
                      (log_item DEBUG (Uploaded_to_bucket file_path destination_blob_name) s1)
                        \<lparr>last_uploaded_files := insert filename (last_uploaded_files s1)\<rparr>)
                else (True, s1)
           else (False, s)
      else (False, s))"

text \<open>\<open>ThumbnailGenerator.upload_thumbnail\<close> catches whatever the uploader raises.\<close>

definition upload_thumbnail ::
  "world \<Rightarrow> string \<Rightarrow> thumbnail_generator \<Rightarrow> thumbnail_generator" where
  "upload_thumbnail w thumbnail_filename s =
     (case uploader_upload_thumbnail w thumbnail_filename
             (log_item DEBUG (Starting_Upload thumbnail_filename) s) of
        (False, s1) \<Rightarrow> log_item DEBUG (Finished_Upload thumbnail_filename) s1
      | (True, s1) \<Rightarrow> log_item ERROR (Error_uploading thumbnail_filename) s1)"

subsection \<open>\<open>process_video\<close>\<close>

text \<open>
  One Media Processor task, run to its end without another task in between. Of the
  statements of the \<open>try\<close> block the download is the one that raises here (the helpers
  called after it catch what they raise); the handler turns that into the status
  \<open>error\<close>.
\<close>

definition process_video ::
  "world \<Rightarrow> video \<Rightarrow> thumbnail_generator \<Rightarrow> status \<times> thumbnail_generator" where
  "process_video w v s =
     (let video_url = Attachment_URL v;
          video_id = video_Id v;
          temp_video_path = os_path_join (temp_folder s) (video_id @ ''.mp4'');
          thumbnail_path = os_path_join (output_folder s) (video_id @ ''.png'');
          metadata_exists = (video_lengths s video_id \<noteq> None);
          thumbnail_exists = (video_id \<in> set (uploaded_uuids s))
      in if metadata_exists \<and> thumbnail_exists
         then (skipped, log_item DEBUG (Skipping video_id) s)
         else
           case (if \<not> metadata_exists \<or> \<not> thumbnail_exists
                 then (if temp_video_path \<notin> files s
                       then download_video w video_url temp_video_path
                              (log_item DEBUG (Downloading_video video_id) s)
                       else (False, s))
                 else (False, s)) of
             (True, s1) \<Rightarrow> (error, log_item ERROR (Error_processing_video video_id) s1)
           | (False, s1) \<Rightarrow>
               let s2 = (if \<not> metadata_exists
                         then process_metadata w video_id temp_video_path s1 else s1);
                   s3 = (if \<not> thumbnail_exists
                         then generate_thumbnail w temp_video_path thumbnail_path
                                (log_item INFO (Generating_thumbnail video_id) s2)
                         else log_item DEBUG (Thumbnail_Exists video_id) s2);
                   s4 = (if temp_video_path \<in> files s3
                         then log_item DEBUG (Temporary_file_removed temp_video_path)
                                (do_effect (Remove_file temp_video_path)
                                   (s3\<lparr>files := files s3 - {temp_video_path}\<rparr>))
                         else s3)
               in (generated, upload_thumbnail w (video_id @ ''.png'') s4))"

text \<open>
  What a task has produced, read off the states before and after it: a duration
  recording put on the metadata queue, or a thumbnail frame written by ffmpeg.
\<close>

fun is_thumbnail_written :: "effect \<Rightarrow> bool" where
  "is_thumbnail_written (Thumbnail_written p) = True"
| "is_thumbnail_written e = False"

definition artifact_produced :: "thumbnail_generator \<Rightarrow> thumbnail_generator \<Rightarrow> bool" where
  "artifact_produced s s' \<longleftrightarrow>
     length (metadata_queue s) < length (metadata_queue s')
     \<or> list_ex is_thumbnail_written (drop (length (effects s)) (effects s'))"

subsection \<open>\<open>batch_save_metadata\<close>\<close>

text \<open>
  The body of the inner loop for one entry taken from the queue; \<open>t\<close> is what
  \<open>time.time()\<close> returns when the entry is accepted.
\<close>

definition handle_metadata_entry ::
  "real \<Rightarrow> metadata \<Rightarrow> thumbnail_generator \<Rightarrow> thumbnail_generator" where
  "handle_metadata_entry t entry s =
     (case (md_Id entry, md_Length entry) of
        (Some video_id, Some len) \<Rightarrow>
          if video_id = [] \<or> len = 0
          then log_item ERROR (Invalid_metadata_entry entry) s
          else (case video_lengths s video_id of
                  None \<Rightarrow>
                    log_item DEBUG (Added_to_batch video_id len)
                      (s\<lparr>video_lengths := (video_lengths s)(video_id \<mapsto> len),
                         last_modification := t,
                         changes_made := True,
                         new_metadata := new_metadata s @ [entry]\<rparr>)
                | Some old \<Rightarrow>
                    if old \<noteq> len
                    then log_item WARNING (Conflicting_metadata video_id old len) s
                    else log_item WARNING Metadata_already_exists s)
      | _ \<Rightarrow> log_item ERROR (Invalid_metadata_entry entry) s)"

text \<open>
  The inner loop: the queue is emptied in order; \<open>clock i\<close> is the clock reading at the
  \<open>i\<close>-th entry.
\<close>

fun drain_metadata ::
  "(nat \<Rightarrow> real) \<Rightarrow> nat \<Rightarrow> metadata list \<Rightarrow> thumbnail_generator \<Rightarrow> thumbnail_generator" where
  "drain_metadata clock i [] s = s"
| "drain_metadata clock i (entry # q) s =
     drain_metadata clock (Suc i) q (handle_metadata_entry (clock i) entry s)"

text \<open>
  \<open>upload_runtime\<close>, that is \<open>DatastoreHandler.push_batch_runtimes\<close>: one batched write,
  whose failure the datastore catches and logs itself.
\<close>

definition upload_runtime :: "metadata list \<Rightarrow> thumbnail_generator \<Rightarrow> thumbnail_generator" where
  "upload_runtime runtime_batch s =
     (if runtime_batch = [] then s else do_effect (Push_batch_runtimes runtime_batch) s)"

text \<open>The save at the end of an iteration, at clock reading \<open>now\<close>.\<close>

definition save_if_due :: "real \<Rightarrow> thumbnail_generator \<Rightarrow> thumbnail_generator" where
  "save_if_due now s =
     (if changes_made s
         \<and> (50 \<le> length (new_metadata s) \<or> 60 \<le> now - last_modification s)
      then (upload_runtime (new_metadata s)
              (log_item INFO (Uploading_Batch_Runtimes (length (new_metadata s))) s))
             \<lparr>new_metadata := [], changes_made := False\<rparr>
      else s)"

text \<open>One iteration of the outer loop.\<close>

definition batch_save_iteration ::
  "(nat \<Rightarrow> real) \<Rightarrow> real \<Rightarrow> thumbnail_generator \<Rightarrow> thumbnail_generator" where
  "batch_save_iteration clock now s =
     save_if_due now (drain_metadata clock 0 (metadata_queue s) (s\<lparr>metadata_queue := []\<rparr>))"

text \<open>
  The flush rule in the words of the specification: the batch has 50 entries, or 60
  seconds have passed since its first entry that is not flushed yet was accepted.
\<close>

definition spec_flush_due :: "nat \<Rightarrow> real \<Rightarrow> real \<Rightarrow> bool" where
  "spec_flush_due batch_length first_accepted now \<longleftrightarrow>
     50 \<le> batch_length \<or> 60 \<le> now - first_accepted"

subsection \<open>Starting state and sample collaborators\<close>

text \<open>The path of the temporary copy of a descriptor's video.\<close>

definition temp_video_path :: "thumbnail_generator \<Rightarrow> video \<Rightarrow> string" where
  "temp_video_path s v = os_path_join (temp_folder s) (video_Id v @ ''.mp4'')"

text \<open>
  The object as \<open>__init__\<close> and the first lines of \<open>batch_save_metadata\<close> leave it, for
  the uuids the bucket lists, the runtimes the datastore returns and the clock reading
  \<open>t0\<close>; no file exists yet.
\<close>

definition init_generator ::
  "string list \<Rightarrow> (string \<rightharpoonup> real) \<Rightarrow> real \<Rightarrow> thumbnail_generator" where
  "init_generator uuids runtimes t0 =
     \<lparr>output_folder = ''thumb'', temp_folder = ''temp'', thumbnail_dir = ''thumb'',
      metadata_queue = [], uploaded_uuids = uuids, video_lengths = runtimes,
      last_uploaded_files = {}, files = {}, tg_log = [], effects = [],
      changes_made = False, last_modification = t0, new_metadata = []\<rparr>"

text \<open>
  An entry is accepted into the batch when it is valid and its id has no duration yet
  (the first branch of \<open>handle_metadata_entry\<close>).
\<close>

definition accepted :: "thumbnail_generator \<Rightarrow> metadata \<Rightarrow> bool" where
  "accepted s entry =
     (case (md_Id entry, md_Length entry) of
        (Some video_id, Some len) \<Rightarrow>
          video_id \<noteq> [] \<and> len \<noteq> 0 \<and> video_lengths s video_id = None
      | _ \<Rightarrow> False)"

definition sample_video :: video where
  "sample_video =
     \<lparr>Attachment_URL =
        ''https://cdn.discordapp.com/attachments/1/2/help.mp4?ex=67357a78&is=673428f8&hm=22eb&'',
      video_Id = ''3f2a9c1e''\<rparr>"


definition expired_link_cdn :: world where
  "expired_link_cdn =
     \<lparr>http_get = (\<lambda>url. Response_other), ffprobe = (\<lambda>p. Some 12.5),
      ffmpeg_ok = (\<lambda>p. True), bucket_ok = (\<lambda>b. True)\<rparr>"

definition broken_media_cdn :: world where
  "broken_media_cdn =
     \<lparr>http_get = (\<lambda>url. Response_200), ffprobe = (\<lambda>p. None),
      ffmpeg_ok = (\<lambda>p. False), bucket_ok = (\<lambda>b. True)\<rparr>"

definition healthy_cdn :: world where
  "healthy_cdn =
     \<lparr>http_get = (\<lambda>url. Response_200), ffprobe = (\<lambda>p. Some 12.5),
      ffmpeg_ok = (\<lambda>p. True), bucket_ok = (\<lambda>b. True)\<rparr>"

text \<open>The batcher after the entry \<open>{a, 10.0}\<close>, and after two entries taken 50 seconds apart.\<close>

definition ten_seconds_recorded :: thumbnail_generator where
  "ten_seconds_recorded =
     handle_metadata_entry 100 \<lparr>md_Id = Some ''a'', md_Length = Some 10\<rparr>
       (init_generator [] Map.empty 0)"

definition two_entries_batch :: thumbnail_generator where
  "two_entries_batch =
     handle_metadata_entry 50 \<lparr>md_Id = Some ''b'', md_Length = Some 7\<rparr>
       (handle_metadata_entry 0 \<lparr>md_Id = Some ''a'', md_Length = Some 10\<rparr>
          (init_generator [] Map.empty 0))"

section \<open>\<open>message_handler.py\<close>\<close>

text \<open>
  The message dict that \<open>build_message_data\<close> makes and the poster dict
  \<open>{"Name": ..., "Url": ...}\<close> that travels with it.
\<close>

record message_data =
  msg_Id :: string
  msg_Discord_id :: string
  msg_Poster :: string
  msg_Date :: real
  msg_Link_to_message :: string
  msg_Description :: string
  msg_Attachment_URL :: string
  msg_Filename :: string
  msg_Expire_Timestamp :: "int option"
  msg_channelId :: string

record user_data =
  Name :: "string option"
  Url :: "string option"

text \<open>The two batched upserts of the datastore; each catches and logs its own failure.\<close>

datatype store_call =
    Push_batch_msgs "message_data list"
  | Push_batch_user_data "(string \<times> user_data) list"

text \<open>
  The \<open>MessageHandler\<close> object. \<open>pending_users\<close> is a dict, kept here in insertion
  order as a list of pairs with distinct keys.
\<close>

record message_handler =
  batch_size :: nat
  flush_interval :: real
  pending_messages :: "message_data list"
  pending_users :: "(string \<times> user_data) list"
  last_flush_time :: real
  store_calls :: "store_call list"
  uploading_log :: "(nat \<times> nat) list"

text \<open>\<open>__init__\<close> with its defaults, at clock reading \<open>t0\<close>.\<close>

definition init_message_handler :: "real \<Rightarrow> message_handler" where
  "init_message_handler t0 =
     \<lparr>batch_size = 30, flush_interval = 60, pending_messages = [], pending_users = [],
      last_flush_time = t0, store_calls = [], uploading_log = []\<rparr>"

text \<open>
  The \<open>try\<close> block of the loop: \<open>polled\<close> is what \<open>message_queue.get(timeout=0.1)\<close>
  returns, \<open>None\<close> standing for the \<open>Empty\<close> exception.
\<close>

definition receive ::
  "(message_data \<times> user_data) option \<Rightarrow> message_handler \<Rightarrow> message_handler" where
  "receive polled h =
     (case polled of
        None \<Rightarrow> h
      | Some (message, author) \<Rightarrow>
          let h1 = h\<lparr>pending_messages := pending_messages h @ [message]\<rparr>
          in case Name author of
               Some username \<Rightarrow>
                 if username \<noteq> [] \<and> username \<notin> fst ` set (pending_users h1)
                 then h1\<lparr>pending_users := pending_users h1 @ [(username, author)]\<rparr>
                 else h1
             | None \<Rightarrow> h1)"

definition upload ::
  "message_data list \<Rightarrow> (string \<times> user_data) list \<Rightarrow> message_handler \<Rightarrow> message_handler" where
  "upload msgs users h =
     h\<lparr>store_calls := store_calls h @ [Push_batch_msgs msgs, Push_batch_user_data users],
       uploading_log := uploading_log h @ [(length msgs, length users)]\<rparr>"

text \<open>
  The flush test of the loop; \<open>t_check\<close> and \<open>t_flush\<close> are the clock readings in the
  condition and in the reset of the timer.
\<close>

definition flush_if_due :: "real \<Rightarrow> real \<Rightarrow> message_handler \<Rightarrow> message_handler" where
  "flush_if_due t_check t_flush h =
     (if batch_size h \<le> length (pending_messages h)
         \<or> flush_interval h \<le> t_check - last_flush_time h
      then (if pending_messages h \<noteq> []
            then (upload (pending_messages h) (pending_users h) h)
                   \<lparr>pending_messages := [], last_flush_time := t_flush\<rparr>
            else h)
      else h)"

text \<open>One iteration of \<open>start_live_message_handling\<close>.\<close>

definition live_iteration ::
  "(message_data \<times> user_data) option \<Rightarrow> real \<Rightarrow> real \<Rightarrow> message_handler
     \<Rightarrow> message_handler" where
  "live_iteration polled t_check t_flush h = flush_if_due t_check t_flush (receive polled h)"

text \<open>\<open>shutdown\<close>, the other place that uploads: it clears both buffers.\<close>

definition shutdown :: "message_handler \<Rightarrow> message_handler" where
  "shutdown h =
     (if pending_messages h \<noteq> [] \<or> pending_users h \<noteq> []
      then (upload (pending_messages h) (pending_users h) h)
             \<lparr>pending_messages := [], pending_users := []\<rparr>
      else h)"

definition sample_message :: message_data where
  "sample_message =
     \<lparr>msg_Id = ''3f2a9c1e'', msg_Discord_id = ''1291615821864501260'', msg_Poster = ''alice'',
      msg_Date = 1731475304, msg_Link_to_message = ''https://discord.com/channels/1/2/3'',
      msg_Description = ''clip'', msg_Attachment_URL = Attachment_URL sample_video,
      msg_Filename = ''help'', msg_Expire_Timestamp = Some 1731557000,
      msg_channelId = ''1180731401503506453''\<rparr>"

definition alice :: user_data where
  "alice = \<lparr>Name = Some ''alice'', Url = None\<rparr>"

section \<open>\<open>heapq\<close>\<close>

text \<open>
  The scheduler keeps its entries in a Python list that it changes only through
  \<open>heapq.heappush\<close> and \<open>heapq.heappop\<close>. The functions below follow the library's
  \<open>_siftdown\<close>, \<open>_siftup\<close>, \<open>heappush\<close> and \<open>heappop\<close> statement by statement; the
  library calls the two sift functions with positions inside the list only.
\<close>

function siftdown_loop :: "'a::linorder list \<Rightarrow> nat \<Rightarrow> nat \<Rightarrow> 'a \<Rightarrow> 'a list" where
  "siftdown_loop heap startpos pos newitem =
     (if startpos < pos then
        let parentpos = (pos - 1) div 2;
            parent = heap ! parentpos
        in if newitem < parent
           then siftdown_loop (heap[pos := parent]) startpos parentpos newitem
           else heap[pos := newitem]
      else heap[pos := newitem])"
  by pat_completeness auto
termination
  by (relation "measure (\<lambda>(heap, startpos, pos, newitem). pos)") auto

definition siftdown :: "'a::linorder list \<Rightarrow> nat \<Rightarrow> nat \<Rightarrow> 'a list" where
  "siftdown heap startpos pos = siftdown_loop heap startpos pos (heap ! pos)"

text \<open>
  The loop of \<open>_siftup\<close> moves the smaller child up until the position is a leaf; it
  returns the list and the leaf reached.
\<close>

function siftup_loop :: "'a::linorder list \<Rightarrow> nat \<Rightarrow> 'a list \<times> nat" where
  "siftup_loop heap pos =
     (let childpos = 2 * pos + 1
      in if childpos < length heap then
           let rightpos = childpos + 1;
               childpos = (if rightpos < length heap \<and> \<not> heap ! childpos < heap ! rightpos
                           then rightpos else childpos)
           in siftup_loop (heap[pos := heap ! childpos]) childpos
         else (heap, pos))"
  by pat_completeness auto
termination
  by (relation "measure (\<lambda>(heap, pos). length heap - pos)") auto

declare siftdown_loop.simps [simp del] siftup_loop.simps [simp del]

definition siftup :: "'a::linorder list \<Rightarrow> nat \<Rightarrow> 'a list" where
  "siftup heap pos =
     (let newitem = heap ! pos
      in case siftup_loop heap pos of
           (heap1, pos1) \<Rightarrow> siftdown (heap1[pos1 := newitem]) pos pos1)"

definition heappush :: "'a::linorder list \<Rightarrow> 'a \<Rightarrow> 'a list" where
  "heappush heap item = siftdown (heap @ [item]) 0 (length heap)"

text \<open>\<open>heappop\<close> raises IndexError on the empty list (\<open>None\<close>).\<close>

definition heappop :: "'a::linorder list \<Rightarrow> ('a \<times> 'a list) option" where
  "heappop heap =
     (if heap = [] then None
      else
        let lastelt = last heap;
            heap1 = butlast heap
        in if heap1 \<noteq> []
           then Some (heap1 ! 0, siftup (heap1[0 := lastelt]) 0)
           else Some (lastelt, heap1))"

text \<open>
  The invariant the library documents: \<open>heap[k] <= heap[2*k+1]\<close> and
  \<open>heap[k] <= heap[2*k+2]\<close> for every \<open>k\<close> for which the compared element exists.
\<close>

definition heap_inv :: "'a::linorder list \<Rightarrow> bool" where
  "heap_inv heap \<longleftrightarrow>
     list_all (\<lambda>k. (2 * k + 1 < length heap \<longrightarrow> heap ! k \<le> heap ! (2 * k + 1))
                 \<and> (2 * k + 2 < length heap \<longrightarrow> heap ! k \<le> heap ! (2 * k + 2)))
       [0..<length heap]"

text \<open>
  Two predicates for the states inside a sift: every parent-child pair that does not
  involve position \<open>pos\<close> is in order, and \<open>x\<close> is at most every child of \<open>pos\<close>.
\<close>

definition heap_but :: "'a::linorder list \<Rightarrow> nat \<Rightarrow> bool" where
  "heap_but h pos \<longleftrightarrow>
     (\<forall>i. 0 < i \<and> i < length h \<and> i \<noteq> pos \<and> (i - 1) div 2 \<noteq> pos
          \<longrightarrow> h ! ((i - 1) div 2) \<le> h ! i)"

definition below_children :: "'a::linorder list \<Rightarrow> nat \<Rightarrow> 'a \<Rightarrow> bool" where
  "below_children h pos x \<longleftrightarrow>
     (\<forall>i. 0 < i \<and> i < length h \<and> (i - 1) div 2 = pos \<longrightarrow> x \<le> h ! i)"

section \<open>\<open>refetch_handler.py\<close>\<close>

text \<open>
  What can stand in the first slot of a tuple taken from the refetch queue: a number
  (\<open>isinstance(x, (int, float))\<close>; floats are taken to be finite), a string or \<open>None\<close>.
\<close>

datatype py_value = Py_int int | Py_float real | Py_str string | Py_none

fun is_number :: "py_value \<Rightarrow> bool" where
  "is_number (Py_int i) = True"
| "is_number (Py_float x) = True"
| "is_number v = False"

fun number_value :: "py_value \<Rightarrow> real" where
  "number_value (Py_int i) = of_int i"
| "number_value (Py_float x) = x"
| "number_value v = 0"

text \<open>
  A queue item is \<open>(expire_timestamp, message_id, discord_id, channel_id)\<close>; a heap
  entry is the same tuple with a numeric first component. Python compares such tuples
  component by component, numbers by value and strings by code points, which is the
  lexicographic order of the product type.
\<close>

type_synonym queue_item = "py_value \<times> string \<times> string \<times> string"

type_synonym heap_entry = "real \<times> string \<times> string \<times> string"

datatype rh_msg =
    Invalid_timestamp string py_value
  | Refetching_expired_message string string
  | Failed_to_refetch string string

text \<open>
  The \<open>RefetchHandler\<close> object with the two locals of \<open>start\<close>, its log, and the entries
  for which \<open>run_coroutine_threadsafe\<close> was called with
  \<open>refetch_message(discord_id, channel_id)\<close>, in the order of the calls.
\<close>

record refetch_handler =
  refetch_queue :: "queue_item list"
  refetch_heap :: "heap_entry list"
  last_message_time :: real
  print_sleeping :: bool
  rh_log :: "(level \<times> rh_msg) list"
  dispatched :: "heap_entry list"

definition init_refetch_handler :: refetch_handler where
  "init_refetch_handler =
     \<lparr>refetch_queue = [], refetch_heap = [], last_message_time = 0, print_sleeping = True,
      rh_log = [], dispatched = []\<rparr>"

definition rh_log_item :: "level \<Rightarrow> rh_msg \<Rightarrow> refetch_handler \<Rightarrow> refetch_handler" where
  "rh_log_item lv m s = s\<lparr>rh_log := rh_log s @ [(lv, m)]\<rparr>"

text \<open>
  The body of the inner loop of \<open>start\<close> for one item taken from the queue at clock
  reading \<open>t\<close>.
\<close>

definition handle_queue_item :: "real \<Rightarrow> queue_item \<Rightarrow> refetch_handler \<Rightarrow> refetch_handler" where
  "handle_queue_item t item s =
     (case item of (expire_timestamp, message_id, discord_id, channel_id) \<Rightarrow>
        let s1 = s\<lparr>last_message_time := t\<rparr>;
            s2 = (if is_number expire_timestamp
                  then s1\<lparr>refetch_heap :=
                            heappush (refetch_heap s1)
                              (number_value expire_timestamp, message_id, discord_id, channel_id)\<rparr>
                  else rh_log_item ERROR (Invalid_timestamp message_id expire_timestamp) s1)
        in s2\<lparr>print_sleeping := True\<rparr>)"

fun drain_items ::
  "(nat \<Rightarrow> real) \<Rightarrow> nat \<Rightarrow> queue_item list \<Rightarrow> refetch_handler \<Rightarrow> refetch_handler" where
  "drain_items clock i [] s = s"
| "drain_items clock i (item # q) s =
     drain_items clock (Suc i) q (handle_queue_item (clock i) item s)"

text \<open>The inner loop: the queue is emptied into the heap.\<close>

definition drain_refetch_queue :: "(nat \<Rightarrow> real) \<Rightarrow> refetch_handler \<Rightarrow> refetch_handler" where
  "drain_refetch_queue clock s =
     drain_items clock 0 (refetch_queue s) (s\<lparr>refetch_queue := []\<rparr>)"

definition entry_of :: "queue_item \<Rightarrow> heap_entry" where
  "entry_of item = (case item of (ts, m, d, c) \<Rightarrow> (number_value ts, m, d, c))"

definition invalid_log :: "queue_item \<Rightarrow> level \<times> rh_msg" where
  "invalid_log item = (case item of (ts, m, d, c) \<Rightarrow> (ERROR, Invalid_timestamp m ts))"

text \<open>
  \<open>process_expired_messages\<close> for \<open>now = int(time.time())\<close>. The call that hands the
  coroutine to the bot's event loop may raise; the exception is caught and logged, and
  the loop goes on. The loop ends because every pass takes one entry off the heap.
\<close>

function process_expired_messages ::
  "(string \<Rightarrow> string \<Rightarrow> bool) \<Rightarrow> int \<Rightarrow> refetch_handler \<Rightarrow> refetch_handler" where
  "process_expired_messages hand_over_raises now s =
     (if refetch_heap s \<noteq> [] \<and> fst (refetch_heap s ! 0) \<le> of_int now then
        case heappop (refetch_heap s) of
          None \<Rightarrow> s
        | Some ((expiration_timestamp, message_id, discord_id, channel_id), heap') \<Rightarrow>
            let s1 = rh_log_item DEBUG (Refetching_expired_message message_id channel_id)
                       (s\<lparr>refetch_heap := heap'\<rparr>);
                s2 = s1\<lparr>dispatched := dispatched s1
                          @ [(expiration_timestamp, message_id, discord_id, channel_id)]\<rparr>;
                s3 = (if hand_over_raises discord_id channel_id
                      then rh_log_item ERROR (Failed_to_refetch message_id channel_id) s2
                      else s2)
            in process_expired_messages hand_over_raises now s3
      else s)"
  by pat_completeness auto
termination
proof -
  have down: "length (siftdown_loop h sp pos x) = length h"
    for h :: "heap_entry list" and sp pos x
    by (induction h sp pos x rule: siftdown_loop.induct)
       (subst siftdown_loop.simps, simp add: Let_def)
  have up: "length (fst (siftup_loop h pos)) = length h" for h :: "heap_entry list" and pos
  proof (induction h pos rule: siftup_loop.induct)
    case (1 heap pos)
    show ?case
    proof (cases "2 * pos + 1 < length heap")
      case True
      define c where "c = (if 2 * pos + 1 + 1 < length heap
                              \<and> \<not> heap ! (2 * pos + 1) < heap ! (2 * pos + 1 + 1)
                           then 2 * pos + 1 + 1 else 2 * pos + 1)"
      have "siftup_loop heap pos = siftup_loop (heap[pos := heap ! c]) c"
        using True by (subst siftup_loop.simps) (simp add: Let_def c_def)
      with "1.IH" [OF refl True refl c_def] show ?thesis by simp
    next
      case False
      then show ?thesis by (subst siftup_loop.simps) (simp add: Let_def)
    qed
  qed
  have "length (siftup h pos) = length h" for h :: "heap_entry list" and pos
    using up [of h pos]
    by (cases "siftup_loop h pos") (simp add: siftup_def siftdown_def down Let_def)
  then have pop: "length h' < length h" if "heappop h = Some (x, h')"
    for h h' :: "heap_entry list" and x
    using that by (auto simp: heappop_def Let_def split: if_splits)
  show ?thesis
    by (relation "measure (\<lambda>(w, now, s). length (refetch_heap s))")
       (auto simp: rh_log_item_def dest: pop)
qed

declare process_expired_messages.simps [simp del]

text \<open>
  The heap of the specification's example, with entries expiring at 100, 300 and 200,
  and a queue that holds an entry whose expiry is the string \<open>not-a-number\<close>.
\<close>

definition three_entries :: refetch_handler where
  "three_entries =
     init_refetch_handler
       \<lparr>refetch_heap := [(100, ''0a1b2c3d'', ''1291615821864501260'', ''1180731401503506453''),
                         (300, ''4e5f6a7b'', ''1291615821864501262'', ''1180731401503506453''),
                         (200, ''8c9d0e1f'', ''1291615821864501261'', ''1180731401503506453'')]\<rparr>"

definition queue_with_invalid_entry :: refetch_handler where
  "queue_with_invalid_entry =
     init_refetch_handler
       \<lparr>refetch_queue :=
          [(Py_int 300, ''4e5f6a7b'', ''1291615821864501262'', ''1180731401503506453''),
           (Py_str ''not-a-number'', ''deadbeef'', ''1291615821864501263'', ''1180731401503506453''),
           (Py_int 100, ''0a1b2c3d'', ''1291615821864501260'', ''1180731401503506453'')]\<rparr>"

section \<open>Properties of the string operations and of the digest\<close>

lemma startswith_append: "startswith (p @ t) p"
  by (induction p) auto

lemma py_contains_startswith: "startswith s sub \<Longrightarrow> py_contains s sub"
  by (cases s; cases sub) auto

lemma py_contains_append: "py_contains (p @ sub @ s) sub"
  by (induction p) (auto simp: startswith_append py_contains_startswith)

lemma rfind_absent: "\<not> py_contains s sub \<Longrightarrow> rfind s sub = - 1"
  by (induction s) (auto simp: Let_def)

lemma rfind_after_marker:
  assumes "\<not> py_contains s ''?ex=''"
  shows "rfind (''?ex='' @ s) ''?ex='' = 0"
  using rfind_absent [OF assms] by (simp add: Let_def)

lemma rfind_last_marker:
  assumes "\<not> py_contains s ''?ex=''"
  shows "rfind (p @ ''?ex='' @ s) ''?ex='' = int (length p)"
proof (induction p)
  case Nil
  show ?case using rfind_after_marker [OF assms] by simp
next
  case (Cons c p)
  then show ?case by (simp add: Let_def)
qed

text \<open>
  When \<open>?ex=\<close> does not occur again in what follows it, the trimmed URL is exactly what
  comes before it.
\<close>

lemma trim_last_marker:
  assumes "\<not> py_contains s ''?ex=''"
  shows "trim_attachment_url (p @ ''?ex='' @ s) = p"
  using rfind_last_marker [OF assms, of p] py_contains_append [of p "''?ex=''" s]
  by (simp add: trim_attachment_url_def slice_to_def)





text \<open>The model of the digest agrees with the RFC 1321 test vector for \<open>abc\<close>.\<close>

lemma md5_test_vector:
  "hexdigest (md5 (encode ''abc'')) = ''900150983cd24fb0d6963f7d28e17f72''"
  by code_simp

section \<open>Resource ids\<close>

text \<open>
  C2. The resource id is a function of its three inputs: equal poster, timestamp and
  URL give equal ids. Two URLs with the same part before their last \<open>?ex=\<close> (so that
  they differ only from the expiry parameter on) get the same id, which is the id of
  that common part.
\<close>

theorem resource_id_deterministic_and_expiry_independent:
  "(a = a' \<and> c = c' \<and> u = u' \<longrightarrow> attachment_uuid a c u = attachment_uuid a' c' u')
   \<and> (\<not> py_contains s1 ''?ex='' \<and> \<not> py_contains s2 ''?ex='' \<longrightarrow>
        attachment_uuid a c (p @ ''?ex='' @ s1) = attachment_uuid a c (p @ ''?ex='' @ s2)
        \<and> attachment_uuid a c (p @ ''?ex='' @ s1) = generate_message_id a c p)"
proof (intro conjI impI)
  assume "a = a' \<and> c = c' \<and> u = u'"
  then show "attachment_uuid a c u = attachment_uuid a' c' u'" by simp
next
  assume h: "\<not> py_contains s1 ''?ex='' \<and> \<not> py_contains s2 ''?ex=''"
  have t1: "trim_attachment_url (p @ ''?ex='' @ s1) = p"
    using h by (intro trim_last_marker) simp
  have t2: "trim_attachment_url (p @ ''?ex='' @ s2) = p"
    using h by (intro trim_last_marker) simp
  show "attachment_uuid a c (p @ ''?ex='' @ s1) = attachment_uuid a c (p @ ''?ex='' @ s2)"
    unfolding attachment_uuid_def by (simp only: t1 t2)
  show "attachment_uuid a c (p @ ''?ex='' @ s1) = generate_message_id a c p"
    unfolding attachment_uuid_def by (simp only: t1)
qed

theorem resource_id_expiry_independent_witness:
  "\<not> py_contains ''67357a78&is=673428f8&hm=22eb4c67&'' ''?ex=''
   \<and> \<not> py_contains ''6748a1b2&is=67475032&hm=9d0f1e55&'' ''?ex=''
   \<and> attachment_uuid ''318532561466458112'' ''2024-11-13 05:21:44.123000+00:00''
         (''https://cdn.discordapp.com/attachments/1180731401503506453/1291615821864501260/help.mp4''
            @ ''?ex='' @ ''67357a78&is=673428f8&hm=22eb4c67&'')
       = attachment_uuid ''318532561466458112'' ''2024-11-13 05:21:44.123000+00:00''
         (''https://cdn.discordapp.com/attachments/1180731401503506453/1291615821864501260/help.mp4''
            @ ''?ex='' @ ''6748a1b2&is=67475032&hm=9d0f1e55&'')"
proof -
  have h1: "\<not> py_contains ''67357a78&is=673428f8&hm=22eb4c67&'' ''?ex=''" by simp
  have h2: "\<not> py_contains ''6748a1b2&is=67475032&hm=9d0f1e55&'' ''?ex=''" by simp
  from resource_id_deterministic_and_expiry_independent
    [of "''318532561466458112''" "''318532561466458112''"
        "''2024-11-13 05:21:44.123000+00:00''" "''2024-11-13 05:21:44.123000+00:00''"
        "[]" "[]"
        "''67357a78&is=673428f8&hm=22eb4c67&''" "''6748a1b2&is=67475032&hm=9d0f1e55&''"
        "''https://cdn.discordapp.com/attachments/1180731401503506453/1291615821864501260/help.mp4''"]
    h1 h2
  show ?thesis by blast
qed


section \<open>The Media Processor task\<close>

lemma process_video_skipped_eq:
  assumes "video_lengths s (video_Id v) \<noteq> None" and "video_Id v \<in> set (uploaded_uuids s)"
  shows "process_video w v s = (skipped, s\<lparr>tg_log := tg_log s @ [(DEBUG, Skipping (video_Id v))]\<rparr>)"
  using assms by (simp add: process_video_def log_item_def)

lemma process_video_status_cases:
  "fst (process_video w v s) =
     (if video_lengths s (video_Id v) \<noteq> None \<and> video_Id v \<in> set (uploaded_uuids s) then skipped
      else if temp_video_path s v \<notin> files s \<and> http_get w (Attachment_URL v) = Request_raises
           then error
      else generated)"
  by (auto simp: process_video_def temp_video_path_def download_video_def Let_def
           split: prod.splits download_outcome.splits bool.splits)

lemma process_video_raises_eq:
  assumes "\<not> (video_lengths s (video_Id v) \<noteq> None \<and> video_Id v \<in> set (uploaded_uuids s))"
    and "temp_video_path s v \<notin> files s"
    and "http_get w (Attachment_URL v) = Request_raises"
  shows "process_video w v s =
           (error, s\<lparr>tg_log := tg_log s @ [(DEBUG, Downloading_video (video_Id v)),
                                           (ERROR, Error_processing_video (video_Id v))],
                     effects := effects s @ [Http_get (Attachment_URL v) (temp_video_path s v)]\<rparr>)"
  using assms
  by (auto simp: process_video_def temp_video_path_def download_video_def Let_def
        log_item_def do_effect_def)

lemma no_artifact_when_only_logged:
  "\<not> artifact_produced s (s\<lparr>tg_log := l\<rparr>)"
  by (simp add: artifact_produced_def)

lemma no_artifact_when_request_raised:
  "\<not> artifact_produced s (s\<lparr>tg_log := l, effects := effects s @ [Http_get u p]\<rparr>)"
  by (simp add: artifact_produced_def)

text \<open>
  C1. When the id of a descriptor is in the duration map and in the list of uploaded
  uuids as the task starts, the task returns \<open>skipped\<close> and changes nothing but the
  log: no request, no probe, no extraction and no upload is made, no file is touched
  and nothing is put on the metadata queue.
\<close>

theorem known_resource_is_skipped:
  assumes "video_lengths s (video_Id v) \<noteq> None" and "video_Id v \<in> set (uploaded_uuids s)"
  shows "process_video w v s
           = (skipped, s\<lparr>tg_log := tg_log s @ [(DEBUG, Skipping (video_Id v))]\<rparr>)
         \<and> effects (snd (process_video w v s)) = effects s
         \<and> files (snd (process_video w v s)) = files s
         \<and> metadata_queue (snd (process_video w v s)) = metadata_queue s
         \<and> last_uploaded_files (snd (process_video w v s)) = last_uploaded_files s"
  using process_video_skipped_eq [OF assms, of w] by simp

theorem known_resource_is_skipped_witness:
  "video_lengths (init_generator [''3f2a9c1e''] [''3f2a9c1e'' \<mapsto> 12.5] 0) (video_Id sample_video) \<noteq> None
   \<and> video_Id sample_video \<in> set (uploaded_uuids (init_generator [''3f2a9c1e''] [''3f2a9c1e'' \<mapsto> 12.5] 0))
   \<and> fst (process_video expired_link_cdn sample_video
             (init_generator [''3f2a9c1e''] [''3f2a9c1e'' \<mapsto> 12.5] 0)) = skipped
   \<and> effects (snd (process_video expired_link_cdn sample_video
             (init_generator [''3f2a9c1e''] [''3f2a9c1e'' \<mapsto> 12.5] 0))) = []"
proof -
  have h1: "video_lengths (init_generator [''3f2a9c1e''] [''3f2a9c1e'' \<mapsto> 12.5] 0) (video_Id sample_video) \<noteq> None"
    by (simp add: init_generator_def sample_video_def)
  have h2: "video_Id sample_video \<in> set (uploaded_uuids (init_generator [''3f2a9c1e''] [''3f2a9c1e'' \<mapsto> 12.5] 0))"
    by (simp add: init_generator_def sample_video_def)
  show ?thesis
    using h1 h2 known_resource_is_skipped [OF h1 h2, of expired_link_cdn]
    by (simp add: init_generator_def)
qed

text \<open>
  C6, as the claim states it, fails: with a video that downloads but that neither
  ffprobe nor ffmpeg can read, the task produces no duration recording and no
  thumbnail and still returns \<open>generated\<close>.
\<close>

theorem generated_without_artifact_counterexample:
  "fst (process_video broken_media_cdn sample_video (init_generator [] Map.empty 0)) = generated
   \<and> \<not> artifact_produced (init_generator [] Map.empty 0)
         (snd (process_video broken_media_cdn sample_video (init_generator [] Map.empty 0)))"
  by (simp add: process_video_def init_generator_def sample_video_def broken_media_cdn_def
        download_video_def process_metadata_def get_video_length_def generate_thumbnail_def
        upload_thumbnail_def uploader_upload_thumbnail_def os_path_join_def endswith_def
        log_item_def do_effect_def artifact_produced_def Let_def)

text \<open>
  C6, amended. The status is \<open>skipped\<close> exactly when duration and thumbnail were both
  known as the task started, \<open>error\<close> exactly when they were not and the download
  raised, and \<open>generated\<close> in every other case, whether or not the probe and the
  extraction succeeded. A task that produced an artifact returns \<open>generated\<close>.
\<close>

theorem task_status_by_design:
  "fst (process_video w v s) =
     (if video_lengths s (video_Id v) \<noteq> None \<and> video_Id v \<in> set (uploaded_uuids s) then skipped
      else if temp_video_path s v \<notin> files s \<and> http_get w (Attachment_URL v) = Request_raises
           then error
      else generated)
   \<and> (artifact_produced s (snd (process_video w v s)) \<longrightarrow> fst (process_video w v s) = generated)"
proof (intro conjI impI)
  show "fst (process_video w v s) =
     (if video_lengths s (video_Id v) \<noteq> None \<and> video_Id v \<in> set (uploaded_uuids s) then skipped
      else if temp_video_path s v \<notin> files s \<and> http_get w (Attachment_URL v) = Request_raises
           then error
      else generated)"
    by (rule process_video_status_cases)
next
  assume a: "artifact_produced s (snd (process_video w v s))"
  show "fst (process_video w v s) = generated"
  proof (cases "video_lengths s (video_Id v) \<noteq> None \<and> video_Id v \<in> set (uploaded_uuids s)")
    case True
    then have "process_video w v s
                 = (skipped, s\<lparr>tg_log := tg_log s @ [(DEBUG, Skipping (video_Id v))]\<rparr>)"
      by (intro process_video_skipped_eq) simp_all
    with a no_artifact_when_only_logged show ?thesis by simp
  next
    case known: False
    show ?thesis
    proof (cases "temp_video_path s v \<notin> files s \<and> http_get w (Attachment_URL v) = Request_raises")
      case True
      with known a process_video_raises_eq [of s v w] no_artifact_when_request_raised
      show ?thesis by simp
    next
      case False
      with known show ?thesis by (simp add: process_video_status_cases)
    qed
  qed
qed


theorem task_status_by_design_witness:
  "artifact_produced (init_generator [] Map.empty 0)
     (snd (process_video healthy_cdn sample_video (init_generator [] Map.empty 0)))
   \<and> fst (process_video healthy_cdn sample_video (init_generator [] Map.empty 0)) = generated"
proof -
  have h: "artifact_produced (init_generator [] Map.empty 0)
     (snd (process_video healthy_cdn sample_video (init_generator [] Map.empty 0)))"
    by (simp add: process_video_def init_generator_def sample_video_def healthy_cdn_def
        download_video_def process_metadata_def get_video_length_def generate_thumbnail_def
        upload_thumbnail_def uploader_upload_thumbnail_def os_path_join_def endswith_def
        log_item_def do_effect_def artifact_produced_def Let_def)
  with task_status_by_design [of healthy_cdn sample_video "init_generator [] Map.empty 0"]
  show ?thesis by blast
qed




section \<open>The Metadata Batcher\<close>

lemma handle_entry_keeps_recorded:
  assumes "video_lengths s vid = Some l0"
  shows "video_lengths (handle_metadata_entry t e s) vid = Some l0"
  using assms
  by (auto simp: handle_metadata_entry_def log_item_def split: option.splits)

lemma handle_entry_batch_other_ids:
  assumes "video_lengths s vid = Some l0"
    and "x \<in> set (new_metadata (handle_metadata_entry t e s))" and "md_Id x = Some vid"
  shows "x \<in> set (new_metadata s)"
  using assms
  by (auto simp: handle_metadata_entry_def log_item_def split: option.splits if_splits)

lemma drain_keeps_recorded:
  assumes "video_lengths s vid = Some l0"
  shows "video_lengths (drain_metadata clock i q s) vid = Some l0"
  using assms
proof (induction q arbitrary: s i)
  case Nil
  then show ?case by simp
next
  case (Cons e q)
  then show ?case by (simp add: handle_entry_keeps_recorded)
qed

lemma drain_batch_other_ids:
  assumes "video_lengths s vid = Some l0"
    and "x \<in> set (new_metadata (drain_metadata clock i q s))" and "md_Id x = Some vid"
  shows "x \<in> set (new_metadata s)"
  using assms
proof (induction q arbitrary: s i)
  case Nil
  then show ?case by simp
next
  case (Cons e q)
  from Cons.prems(1) have "video_lengths (handle_metadata_entry (clock i) e s) vid = Some l0"
    by (rule handle_entry_keeps_recorded)
  from Cons.IH [OF this] Cons.prems(2,3)
  have "x \<in> set (new_metadata (handle_metadata_entry (clock i) e s))" by simp
  with Cons.prems(1,3) show ?case by (blast intro: handle_entry_batch_other_ids)
qed

lemma handle_conflicting_entry:
  assumes "video_lengths s vid = Some l0"
    and "md_Id e = Some vid" and "md_Length e = Some l" and "l \<noteq> l0"
  shows "handle_metadata_entry t e s
           = s\<lparr>tg_log := tg_log s
                  @ [if vid = [] \<or> l = 0 then (ERROR, Invalid_metadata_entry e)
                     else (WARNING, Conflicting_metadata vid l0 l)]\<rparr>"
  using assms by (auto simp: handle_metadata_entry_def log_item_def)

text \<open>
  C3. Once an id has a duration in \<open>video_lengths\<close>, draining any queue of entries
  leaves that duration as it is, and no entry with that id enters the batch that is
  flushed. An entry with the same id and a different length changes nothing but the
  log, where it is reported as a conflict (or as an invalid entry when its id is empty
  or its length is zero).
\<close>

theorem first_recorded_duration_wins:
  assumes "video_lengths s vid = Some l0"
  shows "video_lengths (drain_metadata clock i q s) vid = Some l0
         \<and> (\<forall>x \<in> set (new_metadata (drain_metadata clock i q s)).
               md_Id x = Some vid \<longrightarrow> x \<in> set (new_metadata s))
         \<and> (md_Id e = Some vid \<and> md_Length e = Some l \<and> l \<noteq> l0 \<longrightarrow>
              handle_metadata_entry t e s
                = s\<lparr>tg_log := tg_log s
                       @ [if vid = [] \<or> l = 0 then (ERROR, Invalid_metadata_entry e)
                          else (WARNING, Conflicting_metadata vid l0 l)]\<rparr>)"
  using assms drain_keeps_recorded [OF assms] drain_batch_other_ids [OF assms]
    handle_conflicting_entry [OF assms]
  by blast




theorem first_recorded_duration_wins_witness:
  "video_lengths ten_seconds_recorded ''a'' = Some 10
   \<and> video_lengths
        (drain_metadata (\<lambda>i. 200) 0 [\<lparr>md_Id = Some ''a'', md_Length = Some 12\<rparr>]
           ten_seconds_recorded) ''a'' = Some 10
   \<and> handle_metadata_entry 200 \<lparr>md_Id = Some ''a'', md_Length = Some 12\<rparr> ten_seconds_recorded
       = ten_seconds_recorded
           \<lparr>tg_log := tg_log ten_seconds_recorded @ [(WARNING, Conflicting_metadata ''a'' 10 12)]\<rparr>"
proof -
  have h: "video_lengths ten_seconds_recorded ''a'' = Some 10"
    by (simp add: ten_seconds_recorded_def handle_metadata_entry_def init_generator_def
          log_item_def)
  from first_recorded_duration_wins
         [OF h, of "\<lambda>i. 200" 0 "[\<lparr>md_Id = Some ''a'', md_Length = Some 12\<rparr>]"
            "\<lparr>md_Id = Some ''a'', md_Length = Some 12\<rparr>" 12 200] h
  show ?thesis by simp
qed

lemma handle_entry_batch:
  "new_metadata (handle_metadata_entry t e s)
     = (if accepted s e then new_metadata s @ [e] else new_metadata s)
   \<and> last_modification (handle_metadata_entry t e s)
       = (if accepted s e then t else last_modification s)
   \<and> changes_made (handle_metadata_entry t e s) = (accepted s e \<or> changes_made s)"
  by (auto simp: handle_metadata_entry_def accepted_def log_item_def split: option.splits)

lemma save_if_due_eq:
  assumes "changes_made s \<longleftrightarrow> new_metadata s \<noteq> []"
  shows "save_if_due now s =
      (if new_metadata s \<noteq> []
          \<and> (50 \<le> length (new_metadata s) \<or> 60 \<le> now - last_modification s)
       then s\<lparr>tg_log := tg_log s @ [(INFO, Uploading_Batch_Runtimes (length (new_metadata s)))],
              effects := effects s @ [Push_batch_runtimes (new_metadata s)],
              new_metadata := [], changes_made := False\<rparr>
       else s)"
  using assms by (auto simp: save_if_due_def upload_runtime_def log_item_def do_effect_def)

lemma drain_metadata_invariant:
  assumes "changes_made s \<longleftrightarrow> new_metadata s \<noteq> []"
  shows "changes_made (drain_metadata clock i q s)
           \<longleftrightarrow> new_metadata (drain_metadata clock i q s) \<noteq> []"
  using assms
proof (induction q arbitrary: s i)
  case Nil
  then show ?case by simp
next
  case (Cons e q)
  from Cons.prems have "changes_made (handle_metadata_entry (clock i) e s)
                          \<longleftrightarrow> new_metadata (handle_metadata_entry (clock i) e s) \<noteq> []"
    by (simp add: handle_entry_batch)
  from Cons.IH [OF this] show ?case by simp
qed

text \<open>
  The batch is not empty exactly when \<open>changes_made\<close> is set: this holds when the loop
  starts and after each of its iterations.
\<close>

lemma batch_invariant_init:
  "changes_made (init_generator uuids runtimes t0)
     \<longleftrightarrow> new_metadata (init_generator uuids runtimes t0) \<noteq> []"
  by (simp add: init_generator_def)

lemma batch_invariant_iteration:
  assumes "changes_made s \<longleftrightarrow> new_metadata s \<noteq> []"
  shows "changes_made (batch_save_iteration clock now s)
           \<longleftrightarrow> new_metadata (batch_save_iteration clock now s) \<noteq> []"
proof -
  let ?d = "drain_metadata clock 0 (metadata_queue s) (s\<lparr>metadata_queue := []\<rparr>)"
  from assms have "changes_made ?d \<longleftrightarrow> new_metadata ?d \<noteq> []"
    by (intro drain_metadata_invariant) simp
  then show ?thesis by (simp add: batch_save_iteration_def save_if_due_eq)
qed

text \<open>
  C8, amended. At the end of an iteration the batch is flushed exactly when it is not
  empty and holds at least 50 entries or at least 60 seconds have passed since
  \<open>last_modification\<close>; the flush is one batched write of the whole batch and empties
  it. \<open>last_modification\<close> is the clock reading of the most recently accepted entry:
  every accepted entry restarts the 60 seconds.
\<close>

theorem metadata_flush_rule:
  assumes "changes_made s \<longleftrightarrow> new_metadata s \<noteq> []"
  shows "save_if_due now s =
      (if new_metadata s \<noteq> []
          \<and> (50 \<le> length (new_metadata s) \<or> 60 \<le> now - last_modification s)
       then s\<lparr>tg_log := tg_log s @ [(INFO, Uploading_Batch_Runtimes (length (new_metadata s)))],
              effects := effects s @ [Push_batch_runtimes (new_metadata s)],
              new_metadata := [], changes_made := False\<rparr>
       else s)
    \<and> new_metadata (handle_metadata_entry t e s)
         = (if accepted s e then new_metadata s @ [e] else new_metadata s)
    \<and> last_modification (handle_metadata_entry t e s)
         = (if accepted s e then t else last_modification s)
    \<and> (changes_made (handle_metadata_entry t e s)
         \<longleftrightarrow> new_metadata (handle_metadata_entry t e s) \<noteq> [])
    \<and> (changes_made (save_if_due now s) \<longleftrightarrow> new_metadata (save_if_due now s) \<noteq> [])"
proof -
  have "changes_made (handle_metadata_entry t e s)
         \<longleftrightarrow> new_metadata (handle_metadata_entry t e s) \<noteq> []"
    using assms by (simp add: handle_entry_batch)
  moreover have "changes_made (save_if_due now s) \<longleftrightarrow> new_metadata (save_if_due now s) \<noteq> []"
    using assms by (simp add: save_if_due_eq)
  ultimately show ?thesis
    using save_if_due_eq [OF assms] handle_entry_batch by simp
qed

lemma two_entries_batch_eq:
  "two_entries_batch =
     \<lparr>output_folder = ''thumb'', temp_folder = ''temp'', thumbnail_dir = ''thumb'',
      metadata_queue = [], uploaded_uuids = [],
      video_lengths = [''a'' \<mapsto> 10, ''b'' \<mapsto> 7],
      last_uploaded_files = {}, files = {},
      tg_log = [(DEBUG, Added_to_batch ''a'' 10), (DEBUG, Added_to_batch ''b'' 7)],
      effects = [], changes_made = True, last_modification = 50,
      new_metadata = [\<lparr>md_Id = Some ''a'', md_Length = Some 10\<rparr>,
                      \<lparr>md_Id = Some ''b'', md_Length = Some 7\<rparr>]\<rparr>"
  by (simp add: two_entries_batch_def handle_metadata_entry_def init_generator_def log_item_def)

text \<open>
  C8, as the claim states it, fails: with one entry accepted at second 0 and another
  at second 50, the batch is not flushed at second 61, more than 60 seconds after its
  first entry was accepted.
\<close>

theorem no_flush_sixty_seconds_after_first_entry_counterexample:
  "accepted (init_generator [] Map.empty 0) \<lparr>md_Id = Some ''a'', md_Length = Some 10\<rparr>
   \<and> new_metadata two_entries_batch = [\<lparr>md_Id = Some ''a'', md_Length = Some 10\<rparr>,
                                        \<lparr>md_Id = Some ''b'', md_Length = Some 7\<rparr>]
   \<and> spec_flush_due (length (new_metadata two_entries_batch)) 0 61
   \<and> save_if_due 61 two_entries_batch = two_entries_batch"
  by (simp add: two_entries_batch_eq accepted_def init_generator_def spec_flush_due_def
        save_if_due_def)

theorem metadata_flush_rule_witness:
  "(changes_made two_entries_batch \<longleftrightarrow> new_metadata two_entries_batch \<noteq> [])
   \<and> effects (save_if_due 110 two_entries_batch)
        = [Push_batch_runtimes [\<lparr>md_Id = Some ''a'', md_Length = Some 10\<rparr>,
                                \<lparr>md_Id = Some ''b'', md_Length = Some 7\<rparr>]]
   \<and> new_metadata (save_if_due 110 two_entries_batch) = []
   \<and> save_if_due 109 two_entries_batch = two_entries_batch"
proof -
  have h: "changes_made two_entries_batch \<longleftrightarrow> new_metadata two_entries_batch \<noteq> []"
    by (simp add: two_entries_batch_eq)
  from metadata_flush_rule [OF h, of 110] metadata_flush_rule [OF h, of 109] h
  show ?thesis by (simp add: two_entries_batch_eq)
qed

section \<open>The Ingestion Batcher\<close>

lemma flush_if_due_keeps_posters: "pending_users (flush_if_due t_check t_flush h) = pending_users h"
  by (simp add: flush_if_due_def upload_def)

lemma shutdown_clears_both:
  "pending_messages (shutdown h) = [] \<and> pending_users (shutdown h) = []"
  by (simp add: shutdown_def upload_def)

text \<open>
  C4. The code does not do what the claim says. One message of poster \<open>alice\<close> arrives,
  and more than \<open>flush_interval\<close> seconds after the last flush the loop flushes: both
  upserts are issued, the message buffer is emptied and the timer is reset, but the
  poster buffer still holds \<open>alice\<close>. No flush of the loop ever changes the poster
  buffer, while \<open>shutdown\<close> empties both buffers (the two lemmas above).
\<close>

theorem live_flush_leaves_poster_buffer:
  "store_calls (live_iteration (Some (sample_message, alice)) 61 62 (init_message_handler 0))
     = [Push_batch_msgs [sample_message], Push_batch_user_data [(''alice'', alice)]]
   \<and> pending_messages
        (live_iteration (Some (sample_message, alice)) 61 62 (init_message_handler 0)) = []
   \<and> last_flush_time
        (live_iteration (Some (sample_message, alice)) 61 62 (init_message_handler 0)) = 62
   \<and> pending_users
        (live_iteration (Some (sample_message, alice)) 61 62 (init_message_handler 0))
       = [(''alice'', alice)]"
  by (simp add: live_iteration_def flush_if_due_def receive_def upload_def
        init_message_handler_def alice_def Let_def)

section \<open>The binary heap\<close>

lemma heap_inv_parent:
  "heap_inv h \<longleftrightarrow> (\<forall>i. 0 < i \<and> i < length h \<longrightarrow> h ! ((i - 1) div 2) \<le> h ! i)"
proof
  assume a: "heap_inv h"
  show "\<forall>i. 0 < i \<and> i < length h \<longrightarrow> h ! ((i - 1) div 2) \<le> h ! i"
  proof (intro allI impI)
    fix i assume i: "0 < i \<and> i < length h"
    let ?k = "(i - 1) div 2"
    have k: "?k < length h" using i by linarith
    from a k have c: "(2 * ?k + 1 < length h \<longrightarrow> h ! ?k \<le> h ! (2 * ?k + 1))
                 \<and> (2 * ?k + 2 < length h \<longrightarrow> h ! ?k \<le> h ! (2 * ?k + 2))"
      by (simp add: heap_inv_def list_all_iff)
    from i have "i = 2 * ?k + 1 \<or> i = 2 * ?k + 2" by presburger
    with c i show "h ! ?k \<le> h ! i" by metis
  qed
next
  assume a: "\<forall>i. 0 < i \<and> i < length h \<longrightarrow> h ! ((i - 1) div 2) \<le> h ! i"
  show "heap_inv h"
    unfolding heap_inv_def list_all_iff
  proof (intro ballI conjI impI)
    fix k assume "2 * k + 1 < length h"
    with a [rule_format, of "2 * k + 1"] show "h ! k \<le> h ! (2 * k + 1)" by simp
  next
    fix k assume "2 * k + 2 < length h"
    with a [rule_format, of "2 * k + 2"] show "h ! k \<le> h ! (2 * k + 2)" by simp
  qed
qed


lemma heap_root_least:
  assumes "heap_inv h" and "i < length h"
  shows "h ! 0 \<le> h ! i"
  using assms(2)
proof (induction i rule: less_induct)
  case (less i)
  show ?case
  proof (cases "i = 0")
    case True
    then show ?thesis by simp
  next
    case False
    let ?p = "(i - 1) div 2"
    from False have lt: "?p < i" by linarith
    with less.prems have "?p < length h" by simp
    with less.IH [OF lt] have "h ! 0 \<le> h ! ?p" by simp
    moreover from assms(1) False less.prems have "h ! ?p \<le> h ! i"
      by (simp add: heap_inv_parent)
    ultimately show ?thesis by simp
  qed
qed

lemma heap_butD:
  "heap_but h pos \<Longrightarrow> 0 < i \<Longrightarrow> i < length h \<Longrightarrow> i \<noteq> pos \<Longrightarrow> (i - 1) div 2 \<noteq> pos
     \<Longrightarrow> h ! ((i - 1) div 2) \<le> h ! i"
  by (simp add: heap_but_def)

lemma below_childrenD:
  "below_children h pos x \<Longrightarrow> 0 < i \<Longrightarrow> i < length h \<Longrightarrow> (i - 1) div 2 = pos \<Longrightarrow> x \<le> h ! i"
  by (simp add: below_children_def)

lemma length_siftdown_loop [simp]:
  "length (siftdown_loop h sp pos x) = length h"
  by (induction h sp pos x rule: siftdown_loop.induct)
     (subst siftdown_loop.simps, simp add: Let_def)

lemma mset_siftdown_loop:
  "pos < length h \<Longrightarrow> mset (siftdown_loop h sp pos x) = mset (h[pos := x])"
proof (induction h sp pos x rule: siftdown_loop.induct)
  case (1 heap startpos pos newitem)
  let ?p = "(pos - 1) div 2"
  show ?case
  proof (cases "startpos < pos \<and> newitem < heap ! ?p")
    case True
    then have p: "?p < pos" by linarith
    with "1.prems" have pl: "?p < length heap" by simp
    have "siftdown_loop heap startpos pos newitem
            = siftdown_loop (heap[pos := heap ! ?p]) startpos ?p newitem"
      using True by (subst siftdown_loop.simps) (simp add: Let_def)
    also have "mset \<dots> = mset (heap[pos := heap ! ?p, ?p := newitem])"
      using True pl "1.IH" [of ?p "heap ! ?p"] by simp
    also have "\<dots> = mset (heap[pos := newitem])"
      using p pl "1.prems" by (simp add: mset_update nth_list_update)
    finally show ?thesis .
  next
    case False
    then show ?thesis by (subst siftdown_loop.simps) (auto simp: Let_def)
  qed
qed

lemma siftdown_loop_heap:
  assumes "pos < length h" and "heap_but h pos" and "below_children h pos x"
    and "0 < pos \<longrightarrow> below_children h pos (h ! ((pos - 1) div 2))"
  shows "heap_inv (siftdown_loop h 0 pos x)"
  using assms
proof (induction h "0::nat" pos x rule: siftdown_loop.induct)
  case (1 heap pos newitem)
  let ?p = "(pos - 1) div 2"
  show ?case
  proof (cases "0 < pos \<and> newitem < heap ! ?p")
    case True
    then have p: "?p < pos" by linarith
    with "1.prems" have pl: "?p < length heap" by simp
    let ?h = "heap[pos := heap ! ?p]"
    have eq: "siftdown_loop heap 0 pos newitem = siftdown_loop ?h 0 ?p newitem"
      using True by (subst siftdown_loop.simps) (simp add: Let_def)
    have b: "heap_but ?h ?p"
      unfolding heap_but_def
    proof (intro allI impI)
      fix i assume i: "0 < i \<and> i < length ?h \<and> i \<noteq> ?p \<and> (i - 1) div 2 \<noteq> ?p"
      then have ip: "i \<noteq> pos" by auto
      show "?h ! ((i - 1) div 2) \<le> ?h ! i"
      proof (cases "(i - 1) div 2 = pos")
        case True
        with i "1.prems"(4) \<open>0 < pos \<and> newitem < heap ! ?p\<close> ip "1.prems"(1)
        show ?thesis by (simp add: below_children_def)
      next
        case False
        with i ip "1.prems"(2) show ?thesis by (simp add: heap_but_def)
      qed
    qed
    have up: "heap ! ?p \<le> heap ! i" if "0 < i" "i < length heap" "(i - 1) div 2 = ?p" "i \<noteq> pos" for i
    proof -
      from that p have ne: "(i - 1) div 2 \<noteq> pos" by simp
      from heap_butD [OF "1.prems"(2) that(1) that(2) that(4) ne] that(3)
      show ?thesis by simp
    qed
    have c: "below_children ?h ?p newitem"
      unfolding below_children_def
    proof (intro allI impI)
      fix i assume i: "0 < i \<and> i < length ?h \<and> (i - 1) div 2 = ?p"
      show "newitem \<le> ?h ! i"
      proof (cases "i = pos")
        case True
        with \<open>0 < pos \<and> newitem < heap ! ?p\<close> "1.prems"(1) show ?thesis
          by (simp add: less_imp_le)
      next
        case False
        with i up [of i] have "heap ! ?p \<le> heap ! i" by simp
        with False \<open>0 < pos \<and> newitem < heap ! ?p\<close> show ?thesis by auto
      qed
    qed
    have d: "0 < ?p \<longrightarrow> below_children ?h ?p (?h ! ((?p - 1) div 2))"
    proof
      assume p0: "0 < ?p"
      let ?g = "(?p - 1) div 2"
      from p0 have g: "?g < ?p" by linarith
      with p have gp: "?g \<noteq> pos" by simp
      from p have ppos: "?p \<noteq> pos" by simp
      have gle: "heap ! ?g \<le> heap ! ?p"
        by (rule heap_butD [OF "1.prems"(2) p0 pl ppos gp])
      show "below_children ?h ?p (?h ! ?g)"
        unfolding below_children_def
      proof (intro allI impI)
        fix i assume i: "0 < i \<and> i < length ?h \<and> (i - 1) div 2 = ?p"
        show "?h ! ?g \<le> ?h ! i"
        proof (cases "i = pos")
          case True
          with gle gp "1.prems"(1) show ?thesis by simp
        next
          case False
          with i up [of i] have "heap ! ?p \<le> heap ! i" by simp
          with gle False gp show ?thesis by simp
        qed
      qed
    qed
    have "heap_inv (siftdown_loop ?h 0 ?p newitem)"
    proof (rule "1.hyps" [of ?p "heap ! ?p"])
      show "0 < pos" using True by simp
      show "?p = (pos - 1) div 2" by simp
      show "heap ! ?p = heap ! ?p" by simp
      show "newitem < heap ! ?p" using True by simp
      show "?p < length ?h" using pl by simp
      show "heap_but ?h ?p" by (rule b)
      show "below_children ?h ?p newitem" by (rule c)
      show "0 < ?p \<longrightarrow> below_children ?h ?p (?h ! ((?p - 1) div 2))" by (rule d)
    qed
    then show ?thesis by (simp only: eq)
  next
    case False
    have eq: "siftdown_loop heap 0 pos newitem = heap[pos := newitem]"
      using False by (subst siftdown_loop.simps) (auto simp: Let_def)
    show ?thesis
      unfolding eq heap_inv_parent
    proof (intro allI impI)
      fix i assume i: "0 < i \<and> i < length (heap[pos := newitem])"
      show "heap[pos := newitem] ! ((i - 1) div 2) \<le> heap[pos := newitem] ! i"
      proof (cases "i = pos")
        case True
        with i have "(i - 1) div 2 \<noteq> pos" by linarith
        with True i False "1.prems"(1) show ?thesis by simp
      next
        case ip: False
        show ?thesis
        proof (cases "(i - 1) div 2 = pos")
          case True
          with i ip "1.prems"(1,3) show ?thesis by (simp add: below_children_def)
        next
          case False
          with i ip "1.prems"(2) show ?thesis by (simp add: heap_but_def)
        qed
      qed
    qed
  qed
qed


lemma heap_inv_heappush:
  assumes "heap_inv h"
  shows "heap_inv (heappush h x)"
proof -
  let ?h = "h @ [x]"
  have a: "length h < length ?h" by simp
  have b: "heap_but ?h (length h)"
    unfolding heap_but_def
  proof (intro allI impI)
    fix i assume i: "0 < i \<and> i < length ?h \<and> i \<noteq> length h \<and> (i - 1) div 2 \<noteq> length h"
    then have il: "i < length h" by simp
    then have pl: "(i - 1) div 2 < length h" by linarith
    from assms i il have "h ! ((i - 1) div 2) \<le> h ! i" by (simp add: heap_inv_parent)
    with il pl show "?h ! ((i - 1) div 2) \<le> ?h ! i" by (simp add: nth_append)
  qed
  have c: "below_children ?h (length h) y" for y
    unfolding below_children_def
  proof (intro allI impI)
    fix i assume i: "0 < i \<and> i < length ?h \<and> (i - 1) div 2 = length h"
    then have "i \<le> length h" by simp
    with i have False by linarith
    then show "y \<le> ?h ! i" ..
  qed
  have "heap_inv (siftdown_loop ?h 0 (length h) x)"
    using a b c by (intro siftdown_loop_heap) simp_all
  then show ?thesis by (simp add: heappush_def siftdown_def)
qed

lemma mset_heappush: "mset (heappush h x) = add_mset x (mset h)"
  by (simp add: heappush_def siftdown_def mset_siftdown_loop)

lemma length_heappush [simp]: "length (heappush h x) = Suc (length h)"
  by (simp add: heappush_def siftdown_def)

lemma siftup_loop_props:
  assumes "siftup_loop h pos = (h1, p1)" and "pos < length h" and "heap_but h pos"
    and "0 < pos \<longrightarrow> below_children h pos (h ! ((pos - 1) div 2))"
  shows "length h1 = length h \<and> p1 < length h \<and> length h \<le> 2 * p1 + 1 \<and> heap_but h1 p1
         \<and> (\<forall>x. mset (h1[p1 := x]) = mset (h[pos := x]))"
  using assms
proof (induction h pos arbitrary: h1 p1 rule: siftup_loop.induct)
  case (1 heap pos)
  let ?l = "2 * pos + 1"
  let ?r = "?l + 1"
  show ?case
  proof (cases "?l < length heap")
    case False
    then have "siftup_loop heap pos = (heap, pos)"
      by (subst siftup_loop.simps) (simp add: Let_def)
    with "1.prems" False show ?thesis by simp
  next
    case True
    define c where "c = (if ?r < length heap \<and> \<not> heap ! ?l < heap ! ?r then ?r else ?l)"
    let ?h = "heap[pos := heap ! c]"
    have eq: "siftup_loop heap pos = siftup_loop ?h c"
      using True by (subst siftup_loop.simps) (simp add: Let_def c_def)
    have cl: "c < length heap" using True by (simp add: c_def)
    have cp: "(c - 1) div 2 = pos" by (simp add: c_def)
    have c0: "0 < c" by (simp add: c_def)
    have cgt: "pos < c" by (simp add: c_def)
    have cmin: "heap ! c \<le> heap ! i" if "0 < i" "i < length heap" "(i - 1) div 2 = pos" for i
    proof -
      from that have "i = ?l \<or> i = ?r" by presburger
      with that(2) show ?thesis by (auto simp: c_def)
    qed
    have b: "heap_but ?h c"
      unfolding heap_but_def
    proof (intro allI impI)
      fix i assume i: "0 < i \<and> i < length ?h \<and> i \<noteq> c \<and> (i - 1) div 2 \<noteq> c"
      show "?h ! ((i - 1) div 2) \<le> ?h ! i"
      proof (cases "i = pos")
        case True
        with i have ne: "(i - 1) div 2 \<noteq> pos" by linarith
        from True i "1.prems"(4) have "below_children heap pos (heap ! ((pos - 1) div 2))"
          by simp
        from below_childrenD [OF this c0 cl cp] True ne "1.prems"(2) show ?thesis by simp
      next
        case ip: False
        show ?thesis
        proof (cases "(i - 1) div 2 = pos")
          case True
          with i cmin [of i] have "heap ! c \<le> heap ! i" by simp
          with True ip "1.prems"(2) show ?thesis by simp
        next
          case False
          with i ip heap_butD [OF "1.prems"(3), of i] show ?thesis by simp
        qed
      qed
    qed
    have d: "0 < c \<longrightarrow> below_children ?h c (?h ! ((c - 1) div 2))"
    proof
      show "below_children ?h c (?h ! ((c - 1) div 2))"
        unfolding below_children_def cp
      proof (intro allI impI)
        fix i assume i: "0 < i \<and> i < length ?h \<and> (i - 1) div 2 = c"
        with cgt have ip: "i \<noteq> pos" by linarith
        from i cgt have "(i - 1) div 2 \<noteq> pos" by simp
        with i ip heap_butD [OF "1.prems"(3), of i] have "heap ! c \<le> heap ! i" by simp
        with ip "1.prems"(2) show "?h ! pos \<le> ?h ! i" by simp
      qed
    qed
    from "1.prems"(1) eq have r: "siftup_loop ?h c = (h1, p1)" by simp
    have IH: "length h1 = length ?h \<and> p1 < length ?h \<and> length ?h \<le> 2 * p1 + 1
              \<and> heap_but h1 p1 \<and> (\<forall>x. mset (h1[p1 := x]) = mset (?h[c := x]))"
      using "1.IH" [OF refl True refl c_def r] cl b d
      by simp
    have "mset (?h[c := x]) = mset (heap[pos := x])" for x
      using cl cgt "1.prems"(2) by (simp add: mset_update nth_list_update)
    with IH show ?thesis by simp
  qed
qed


lemma length_siftup_loop: "length (fst (siftup_loop h pos)) = length h"
proof (induction h pos rule: siftup_loop.induct)
  case (1 heap pos)
  show ?case
  proof (cases "2 * pos + 1 < length heap")
    case True
    define c where "c = (if 2 * pos + 1 + 1 < length heap
                            \<and> \<not> heap ! (2 * pos + 1) < heap ! (2 * pos + 1 + 1)
                         then 2 * pos + 1 + 1 else 2 * pos + 1)"
    have "siftup_loop heap pos = siftup_loop (heap[pos := heap ! c]) c"
      using True by (subst siftup_loop.simps) (simp add: Let_def c_def)
    with "1.IH" [OF refl True refl c_def] show ?thesis by simp
  next
    case False
    then show ?thesis by (subst siftup_loop.simps) (simp add: Let_def)
  qed
qed

lemma length_siftup [simp]: "length (siftup h pos) = length h"
  using length_siftup_loop [of h pos]
  by (cases "siftup_loop h pos") (simp add: siftup_def siftdown_def Let_def)

lemma heap_but_update [simp]: "heap_but (h[pos := x]) pos = heap_but h pos"
  by (auto simp: heap_but_def)

lemma heappop_heap:
  assumes "heap_inv h" and "h \<noteq> []"
  shows "\<exists>h'. heappop h = Some (h ! 0, h') \<and> heap_inv h' \<and> mset h = add_mset (h ! 0) (mset h')"
proof (cases "butlast h = []")
  case True
  with assms(2) have "h = [last h]"
    by (metis append_butlast_last_id append_Nil)
  then obtain x where h: "h = [x]" ..
  then have "heappop h = Some (h ! 0, [])" by (simp add: heappop_def)
  moreover have "heap_inv ([] :: 'a list)" by (simp add: heap_inv_def)
  ultimately show ?thesis using h by simp
next
  case False
  let ?h1 = "butlast h"
  let ?x = "last h"
  let ?g = "?h1[0 := ?x]"
  from assms(2) have h: "h = ?h1 @ [?x]" by simp
  from False have l1: "0 < length ?h1" by (rule length_greater_0_conv [THEN iffD2])
  have nth1: "?h1 ! i = h ! i" if "i < length ?h1" for i
    using that by (simp add: nth_butlast)
  obtain h2 p2 where r: "siftup_loop ?g 0 = (h2, p2)" by (cases "siftup_loop ?g 0")
  have bg: "heap_but ?g 0"
    unfolding heap_but_def
  proof (intro allI impI)
    fix i assume i: "0 < i \<and> i < length ?g \<and> i \<noteq> 0 \<and> (i - 1) div 2 \<noteq> 0"
    then have il: "i < length ?h1" by simp
    then have pl: "(i - 1) div 2 < length ?h1" by linarith
    from il have "i < length h" by simp
    with assms(1) i have "h ! ((i - 1) div 2) \<le> h ! i" by (simp add: heap_inv_parent)
    with i il pl show "?g ! ((i - 1) div 2) \<le> ?g ! i" by (simp add: nth1)
  qed
  from siftup_loop_props [OF r _ bg] l1
  have p: "length h2 = length ?g" "p2 < length ?g" "length ?g \<le> 2 * p2 + 1" "heap_but h2 p2"
    and m: "\<And>x. mset (h2[p2 := x]) = mset (?g[0 := x])"
    by simp_all
  let ?h3 = "h2[p2 := ?x]"
  have c: "below_children ?h3 p2 y" for y
    unfolding below_children_def
  proof (intro allI impI)
    fix i assume i: "0 < i \<and> i < length ?h3 \<and> (i - 1) div 2 = p2"
    then have "2 * p2 + 1 \<le> i" by linarith
    with i p(1,3) have False by simp
    then show "y \<le> ?h3 ! i" ..
  qed
  have "heap_inv (siftdown_loop ?h3 0 p2 ?x)"
    using p c by (intro siftdown_loop_heap) simp_all
  moreover have "siftup ?g 0 = siftdown_loop ?h3 0 p2 ?x"
    using r p l1 by (simp add: siftup_def siftdown_def Let_def)
  ultimately have inv: "heap_inv (siftup ?g 0)" by simp
  have "mset (siftup ?g 0) = mset (?h3[p2 := ?x])"
    using \<open>siftup ?g 0 = siftdown_loop ?h3 0 p2 ?x\<close> p by (simp add: mset_siftdown_loop)
  also have "\<dots> = mset ?g" using m [of ?x] by simp
  also have "\<dots> = add_mset ?x (mset ?h1 - {#?h1 ! 0#})" using l1 by (simp add: mset_update)
  finally have ms: "mset (siftup ?g 0) = add_mset ?x (mset ?h1 - {#?h1 ! 0#})" .
  have "?h1 ! 0 \<in># mset ?h1" using l1 by simp
  then have "add_mset (?h1 ! 0) (add_mset ?x (mset ?h1 - {#?h1 ! 0#})) = add_mset ?x (mset ?h1)"
    by simp
  moreover have "mset h = add_mset ?x (mset ?h1)" by (subst h) simp
  moreover have "?h1 ! 0 = h ! 0" using l1 by (simp add: nth1)
  ultimately have "mset h = add_mset (h ! 0) (mset (siftup ?g 0))" using ms by simp
  moreover have "heappop h = Some (h ! 0, siftup ?g 0)"
    using assms(2) False \<open>?h1 ! 0 = h ! 0\<close> by (simp add: heappop_def Let_def)
  ultimately show ?thesis using inv by blast
qed


section \<open>The Expiration Scheduler\<close>

lemma fst_mono_entry: "(e :: heap_entry) \<le> e' \<Longrightarrow> fst e \<le> fst e'"
  by (cases e; cases e') (auto simp: less_eq_prod_def)

lemma process_expired_invariant:
  assumes "heap_inv (refetch_heap s)"
  shows "\<exists>popped. dispatched (process_expired_messages w now s) = dispatched s @ popped
           \<and> sorted popped
           \<and> (\<forall>e \<in> set popped. fst e \<le> of_int now)
           \<and> mset (refetch_heap s) = mset popped + mset (refetch_heap (process_expired_messages w now s))
           \<and> (\<forall>e \<in> set (refetch_heap (process_expired_messages w now s)). \<not> fst e \<le> of_int now)
           \<and> heap_inv (refetch_heap (process_expired_messages w now s))"
  using assms
proof (induction w now s rule: process_expired_messages.induct)
  case (1 w now s)
  let ?h = "refetch_heap s"
  show ?case
  proof (cases "?h \<noteq> [] \<and> fst (?h ! 0) \<le> of_int now")
    case False
    have eq: "process_expired_messages w now s = s"
      by (subst process_expired_messages.simps) (use False in auto)
    have "\<not> fst e \<le> of_int now" if "e \<in> set ?h" for e
    proof -
      from that have ne: "?h \<noteq> []" by auto
      from that obtain i where i: "i < length ?h" "?h ! i = e" by (auto simp: in_set_conv_nth)
      from heap_root_least [OF "1.prems" i(1)] i(2) have "?h ! 0 \<le> e" by simp
      then have "fst (?h ! 0) \<le> fst e" by (rule fst_mono_entry)
      with False ne show ?thesis by auto
    qed
    with "1.prems" show ?thesis unfolding eq by (intro exI [of _ "[]"]) simp
  next
    case True
    then have ne: "?h \<noteq> []" by simp
    from heappop_heap [OF "1.prems" ne] obtain h' where
      pop: "heappop ?h = Some (?h ! 0, h')" and inv: "heap_inv h'"
      and ms: "mset ?h = add_mset (?h ! 0) (mset h')" by blast
    obtain t m d c where e: "?h ! 0 = (t, m, d, c)" by (cases "?h ! 0")
    define s2 where "s2 = (rh_log_item DEBUG (Refetching_expired_message m c)
                       (s\<lparr>refetch_heap := h'\<rparr>))\<lparr>dispatched := dispatched s @ [(t, m, d, c)]\<rparr>"
    define s3 where "s3 = (if w d c then rh_log_item ERROR (Failed_to_refetch m c) s2 else s2)"
    have eq: "process_expired_messages w now s = process_expired_messages w now s3"
      using True pop e
      by (subst process_expired_messages.simps) (simp add: s3_def s2_def rh_log_item_def Let_def)
    have h3: "refetch_heap s3 = h'" and d3: "dispatched s3 = dispatched s @ [?h ! 0]"
      by (simp_all add: s3_def s2_def rh_log_item_def e)
    have "\<exists>popped. dispatched (process_expired_messages w now s3) = dispatched s3 @ popped
           \<and> sorted popped
           \<and> (\<forall>e \<in> set popped. fst e \<le> of_int now)
           \<and> mset (refetch_heap s3) = mset popped + mset (refetch_heap (process_expired_messages w now s3))
           \<and> (\<forall>e \<in> set (refetch_heap (process_expired_messages w now s3)). \<not> fst e \<le> of_int now)
           \<and> heap_inv (refetch_heap (process_expired_messages w now s3))"
    proof (rule "1.IH" [OF True pop [unfolded e] refl refl])
      show "s2 = (rh_log_item DEBUG (Refetching_expired_message m c) (s\<lparr>refetch_heap := h'\<rparr>))
                   \<lparr>dispatched := dispatched (rh_log_item DEBUG (Refetching_expired_message m c)
                                     (s\<lparr>refetch_heap := h'\<rparr>)) @ [(t, m, d, c)]\<rparr>"
        by (simp add: s2_def rh_log_item_def)
      show "s3 = (if w d c then rh_log_item ERROR (Failed_to_refetch m c) s2 else s2)"
        by (rule s3_def)
      show "heap_inv (refetch_heap s3)" using inv h3 by simp
    qed (rule refl)+
    then obtain popped where
      p: "dispatched (process_expired_messages w now s3) = dispatched s3 @ popped"
         "sorted popped" "\<forall>e \<in> set popped. fst e \<le> of_int now"
         "mset (refetch_heap s3) = mset popped + mset (refetch_heap (process_expired_messages w now s3))"
         "\<forall>e \<in> set (refetch_heap (process_expired_messages w now s3)). \<not> fst e \<le> of_int now"
         "heap_inv (refetch_heap (process_expired_messages w now s3))"
      by blast
    have least: "?h ! 0 \<le> x" if "x \<in> set popped" for x
    proof -
      from that p(4) h3 have "x \<in># mset h'" by (metis mset_subset_eq_add_left mset_subset_eqD set_mset_mset)
      with ms have "x \<in> set ?h" by (metis insert_iff set_mset_add_mset_insert set_mset_mset)
      then obtain i where "i < length ?h" "?h ! i = x" by (auto simp: in_set_conv_nth)
      with heap_root_least [OF "1.prems", of i] show ?thesis by simp
    qed
    show ?thesis
      unfolding eq
    proof (intro exI [of _ "?h ! 0 # popped"] conjI)
      show "dispatched (process_expired_messages w now s3) = dispatched s @ ?h ! 0 # popped"
        using p(1) d3 by simp
      show "sorted (?h ! 0 # popped)" using p(2) least by simp
      show "\<forall>e \<in> set (?h ! 0 # popped). fst e \<le> of_int now" using p(3) True by simp
      show "mset ?h = mset (?h ! 0 # popped) + mset (refetch_heap (process_expired_messages w now s3))"
        using ms p(4) h3 by simp
      show "\<forall>e \<in> set (refetch_heap (process_expired_messages w now s3)). \<not> fst e \<le> of_int now"
        by (rule p(5))
      show "heap_inv (refetch_heap (process_expired_messages w now s3))" by (rule p(6))
    qed
  qed
qed


lemma sorted_map_fst_entries:
  assumes "sorted (es :: heap_entry list)"
  shows "sorted (map fst es)"
proof -
  from assms have "sorted_wrt (\<lambda>x y. fst x \<le> fst y) es"
    by (rule sorted_wrt_mono_rel [rotated]) (rule fst_mono_entry)
  then show ?thesis by (simp add: sorted_map)
qed

text \<open>
  C5. For every heap (a list with the heap invariant, which is all \<open>heappush\<close> and
  \<open>heappop\<close> ever produce) and every \<open>now\<close>, one run of \<open>process_expired_messages\<close>
  pops exactly the entries with \<open>expire_at \<le> now\<close> and requests a re-fetch for each of
  them, in ascending order, and leaves exactly the entries with \<open>expire_at > now\<close> in
  the heap, which is a heap again.
\<close>

theorem expired_entries_refetched_in_order:
  assumes "heap_inv (refetch_heap s)"
  shows "dispatched (process_expired_messages w now s)
           = dispatched s @ sort (filter (\<lambda>e. fst e \<le> of_int now) (refetch_heap s))
         \<and> sorted (map fst (sort (filter (\<lambda>e. fst e \<le> of_int now) (refetch_heap s))))
         \<and> mset (refetch_heap (process_expired_messages w now s))
             = mset (filter (\<lambda>e. \<not> fst e \<le> of_int now) (refetch_heap s))
         \<and> heap_inv (refetch_heap (process_expired_messages w now s))"
proof -
  let ?s' = "process_expired_messages w now s"
  let ?P = "\<lambda>e :: heap_entry. fst e \<le> of_int now"
  from process_expired_invariant [OF assms, of w now] obtain popped where
    p: "dispatched ?s' = dispatched s @ popped" "sorted popped"
       "\<forall>e \<in> set popped. ?P e"
       "mset (refetch_heap s) = mset popped + mset (refetch_heap ?s')"
       "\<forall>e \<in> set (refetch_heap ?s'). \<not> ?P e"
       "heap_inv (refetch_heap ?s')"
    by blast
  have f1: "filter ?P popped = popped" using p(3) by (simp add: filter_id_conv)
  have f2: "filter ?P (refetch_heap ?s') = []" using p(5) by (simp add: filter_empty_conv)
  have g1: "filter (\<lambda>e. \<not> ?P e) popped = []" using p(3) by (simp add: filter_empty_conv)
  have g2: "filter (\<lambda>e. \<not> ?P e) (refetch_heap ?s') = refetch_heap ?s'"
    using p(5) by (simp add: filter_id_conv)
  have "mset (filter ?P (refetch_heap s)) = filter_mset ?P (mset popped + mset (refetch_heap ?s'))"
    using p(4) by (simp only: mset_filter)
  also have "\<dots> = mset (filter ?P popped) + mset (filter ?P (refetch_heap ?s'))"
    by (simp only: filter_union_mset mset_filter)
  also have "\<dots> = mset popped" by (simp add: f1 f2)
  finally have "mset popped = mset (filter ?P (refetch_heap s))" by simp
  then have srt: "sort (filter ?P (refetch_heap s)) = popped"
    using p(2) by (rule properties_for_sort)
  have "mset (filter (\<lambda>e. \<not> ?P e) (refetch_heap s))
          = filter_mset (\<lambda>e. \<not> ?P e) (mset popped + mset (refetch_heap ?s'))"
    using p(4) by (simp only: mset_filter)
  also have "\<dots> = mset (filter (\<lambda>e. \<not> ?P e) popped)
                     + mset (filter (\<lambda>e. \<not> ?P e) (refetch_heap ?s'))"
    by (simp only: filter_union_mset mset_filter)
  also have "\<dots> = mset (refetch_heap ?s')" by (simp add: g1 g2)
  finally have rest: "mset (refetch_heap ?s') = mset (filter (\<lambda>e. \<not> ?P e) (refetch_heap s))"
    by simp
  from p(1,2,6) srt rest sorted_map_fst_entries [OF p(2)] show ?thesis by simp
qed

lemma three_entries_heap: "heap_inv (refetch_heap three_entries)"
  by (simp add: three_entries_def init_refetch_handler_def heap_inv_def upt_rec)

theorem expired_entries_refetched_in_order_witness:
  "heap_inv (refetch_heap three_entries)
   \<and> dispatched (process_expired_messages (\<lambda>d c. False) 250 three_entries)
       = [(100, ''0a1b2c3d'', ''1291615821864501260'', ''1180731401503506453''),
          (200, ''8c9d0e1f'', ''1291615821864501261'', ''1180731401503506453'')]
   \<and> mset (refetch_heap (process_expired_messages (\<lambda>d c. False) 250 three_entries))
       = {#(300, ''4e5f6a7b'', ''1291615821864501262'', ''1180731401503506453'')#}"
proof -
  have h: "heap_inv (refetch_heap three_entries)" by (rule three_entries_heap)
  from expired_entries_refetched_in_order [OF h, of "\<lambda>d c. False" 250] h
  show ?thesis
    by (simp add: three_entries_def init_refetch_handler_def)
qed

lemma handle_invalid_item:
  assumes "\<not> is_number ts"
  shows "handle_queue_item t (ts, m, d, c) s
           = s\<lparr>last_message_time := t,
                rh_log := rh_log s @ [(ERROR, Invalid_timestamp m ts)],
                print_sleeping := True\<rparr>"
  using assms by (simp add: handle_queue_item_def rh_log_item_def)

lemma handle_queue_item_props:
  "mset (refetch_heap (handle_queue_item t item s))
     = mset (refetch_heap s) + mset (map entry_of (filter (\<lambda>it. is_number (fst it)) [item]))
   \<and> rh_log (handle_queue_item t item s)
       = rh_log s @ map invalid_log (filter (\<lambda>it. \<not> is_number (fst it)) [item])
   \<and> refetch_queue (handle_queue_item t item s) = refetch_queue s
   \<and> dispatched (handle_queue_item t item s) = dispatched s
   \<and> (heap_inv (refetch_heap s) \<longrightarrow> heap_inv (refetch_heap (handle_queue_item t item s)))"
  by (cases item)
     (simp add: handle_queue_item_def rh_log_item_def entry_of_def invalid_log_def mset_heappush
        heap_inv_heappush)

lemma drain_items_props:
  "mset (refetch_heap (drain_items clock i q s))
     = mset (refetch_heap s) + mset (map entry_of (filter (\<lambda>it. is_number (fst it)) q))
   \<and> rh_log (drain_items clock i q s)
       = rh_log s @ map invalid_log (filter (\<lambda>it. \<not> is_number (fst it)) q)
   \<and> refetch_queue (drain_items clock i q s) = refetch_queue s
   \<and> dispatched (drain_items clock i q s) = dispatched s
   \<and> (heap_inv (refetch_heap s) \<longrightarrow> heap_inv (refetch_heap (drain_items clock i q s)))"
proof (induction q arbitrary: s i)
  case Nil
  show ?case by simp
next
  case (Cons item q)
  from Cons.IH [of "Suc i" "handle_queue_item (clock i) item s"]
    handle_queue_item_props [of "clock i" item s]
  show ?case by (cases "is_number (fst item)") simp_all
qed

text \<open>
  C9. An item taken from the queue whose \<open>expire_at\<close> is not a number changes nothing
  but the log, where an error is written, and the two locals of the loop. Draining the
  queue puts exactly the items with a numeric \<open>expire_at\<close> on the heap, logs one error
  for each of the others in the order they came, leaves the queue empty and keeps the
  heap invariant.
\<close>

theorem invalid_scheduler_input_is_dropped:
  "(\<not> is_number ts \<longrightarrow>
      handle_queue_item t (ts, m, d, c) s
        = s\<lparr>last_message_time := t,
             rh_log := rh_log s @ [(ERROR, Invalid_timestamp m ts)],
             print_sleeping := True\<rparr>)
   \<and> mset (refetch_heap (drain_refetch_queue clock s))
       = mset (refetch_heap s)
         + mset (map entry_of (filter (\<lambda>it. is_number (fst it)) (refetch_queue s)))
   \<and> rh_log (drain_refetch_queue clock s)
       = rh_log s @ map invalid_log (filter (\<lambda>it. \<not> is_number (fst it)) (refetch_queue s))
   \<and> refetch_queue (drain_refetch_queue clock s) = []
   \<and> (heap_inv (refetch_heap s) \<longrightarrow> heap_inv (refetch_heap (drain_refetch_queue clock s)))"
  using handle_invalid_item [of ts t m d c s]
    drain_items_props [of clock 0 "refetch_queue s" "s\<lparr>refetch_queue := []\<rparr>"]
  by (simp add: drain_refetch_queue_def)

theorem invalid_scheduler_input_is_dropped_witness:
  "\<not> is_number (Py_str ''not-a-number'')
   \<and> heap_inv (refetch_heap queue_with_invalid_entry)
   \<and> mset (refetch_heap (drain_refetch_queue (\<lambda>i. 1000) queue_with_invalid_entry))
       = {#(300, ''4e5f6a7b'', ''1291615821864501262'', ''1180731401503506453''),
           (100, ''0a1b2c3d'', ''1291615821864501260'', ''1180731401503506453'')#}
   \<and> rh_log (drain_refetch_queue (\<lambda>i. 1000) queue_with_invalid_entry)
       = [(ERROR, Invalid_timestamp ''deadbeef'' (Py_str ''not-a-number''))]
   \<and> heap_inv (refetch_heap (drain_refetch_queue (\<lambda>i. 1000) queue_with_invalid_entry))"
proof -
  have h1: "\<not> is_number (Py_str ''not-a-number'')" by simp
  have h2: "heap_inv (refetch_heap queue_with_invalid_entry)"
    by (simp add: queue_with_invalid_entry_def init_refetch_handler_def heap_inv_def)
  from invalid_scheduler_input_is_dropped
         [of "Py_str ''not-a-number''" 1000 "''deadbeef''" "''1291615821864501263''"
             "''1180731401503506453''" queue_with_invalid_entry "\<lambda>i. 1000"] h1 h2
  show ?thesis
    by (simp add: queue_with_invalid_entry_def init_refetch_handler_def entry_of_def
          invalid_log_def)
qed

end
